theory Spec2Isabelle
  imports Main "HOL-Library.Word" "HOL-Library.DAList" "HOL-Library.Sublist"
    "HOL-Library.Multiset"
begin

unbundle bit_operations_syntax

section \<open>Data model of package worldcidrs\<close>

text \<open>
  \<open>cidrSetID = types.NamespacedName\<close>: the namespace and the name of a CIDR set.
\<close>

record NamespacedName =
  Namespace :: string
  Name :: string

type_synonym cidrSetID = NamespacedName

text \<open>
  \<open>net.IPNet\<close>, IPv4 only: the address as a 32-bit word and the mask as its number of
  leading one bits (the prefix length).
\<close>

record IPNet =
  IP :: "32 word"
  Mask :: nat

text \<open>
  \<open>type CIDRSet struct { id cidrSetID; cidrs []*net.IPNet }\<close>. The field \<open>id\<close> is
  written \<open>id'\<close>, since \<open>id\<close> is the identity function of HOL.
\<close>

record CIDRSet =
  id' :: cidrSetID
  cidrs :: "IPNet list"

subsection \<open>Package worldcidrsmap: keys of the table\<close>

text \<open>
  Modelled from the spec: the key type \<open>worldcidrsmap.WorldCIDRKey4\<close> is declared outside
  the sources at hand. The spec describes a table key as "a stored prefix key (address +
  prefix length, IPv4 in this slice)".
\<close>

record WorldCIDRKey4 =
  PrefixLen :: nat
  Addr :: "32 word"

text \<open>The network mask of a prefix length: the \<open>ones\<close> leading bits set.\<close>

definition CIDRMask :: "nat \<Rightarrow> 32 word" where
  "CIDRMask ones = push_bit (32 - ones) (- 1)"

text \<open>
  Modelled from the spec: \<open>worldcidrsmap.NewWorldCIDRKey4\<close> is missing from the sources.
  The spec calls its result the normalized prefix: "masked address + prefix length".
\<close>

definition NewWorldCIDRKey4 :: "IPNet \<Rightarrow> WorldCIDRKey4" where
  "NewWorldCIDRKey4 cidr =
     \<lparr>PrefixLen = Mask cidr, Addr = IP cidr AND CIDRMask (Mask cidr)\<rparr>"

text \<open>
  Modelled from the spec: \<open>WorldCIDRKey4.GetCIDR\<close> is missing from the sources; it hands
  back the prefix (address and prefix length) that a key stores.
\<close>

definition GetCIDR :: "WorldCIDRKey4 \<Rightarrow> IPNet" where
  "GetCIDR k = \<lparr>IP = Addr k, Mask = PrefixLen k\<rparr>"

text \<open>The normalized prefix of a table entry.\<close>

definition normKey :: "WorldCIDRKey4 \<Rightarrow> WorldCIDRKey4" where
  "normKey k = NewWorldCIDRKey4 (GetCIDR k)"

text \<open>
  Modelled from the spec: \<open>WorldCIDRKey4.Matches\<close> is missing from the sources. The spec:
  "Matching is exact-value equality after normalization (masked address + prefix
  length), not subset/superset overlap."
\<close>

definition Matches :: "WorldCIDRKey4 \<Rightarrow> IPNet \<Rightarrow> bool" where
  "Matches k cidr = (normKey k = NewWorldCIDRKey4 cidr)"

subsection \<open>Errors, adapter calls and log records\<close>

datatype error = ErrIO | ErrNotFound

text \<open>The calls the manager makes on \<open>worldcidrsmap.WorldCIDRsMap\<close>.\<close>

datatype tableCall = Iterate | Add IPNet | Delete IPNet

datatype logLevel = InfoLevel | WarnLevel | ErrorLevel

datatype logField = CiliumWorldCIDRSetName string | CIDR IPNet | ErrorField error

record logEntry =
  level :: logLevel
  logFields :: "logField list"
  message :: string

subsection \<open>The state and its environment\<close>

text \<open>
  One record holds everything the manager's methods read or write: the field
  \<open>cidrSets\<close> of \<open>Manager\<close> (a Go map, hence a list of pairs with distinct keys), the
  kernel table behind \<open>WorldCIDRsMap\<close> (the stored keys; the values are opaque and the
  manager never reads them), the adapter calls issued so far, each with its result, the
  log, and a clock that counts the consultations of the environment.
  \<open>lock.Mutex\<close> is not a field: every method below runs as one critical section.
\<close>

record state =
  cidrSets :: "(cidrSetID, CIDRSet) alist"
  table :: "WorldCIDRKey4 list"
  calls :: "(tableCall \<times> error option) list"
  logs :: "logEntry list"
  clock :: nat

text \<open>
  What the code does not decide is an oracle of the environment, asked at the clock's
  current value: the answer of \<open>k8sCacheSyncedChecker.K8sCacheIsSynced()\<close> (the other
  field of \<open>Manager\<close>, an interface with this one method), whether an \<open>Add\<close> or
  \<open>Delete\<close> fails in the kernel, and the order in which a \<open>range\<close> over a Go map
  visits its keys (by ascending rank; every order of distinct keys is the ascending order
  of some rank: lemmas \<open>rangeCIDRSets_any_order\<close> and \<open>rangeWorldCIDRs_any_order\<close>
  below).
\<close>

record env =
  K8sCacheIsSynced :: "nat \<Rightarrow> bool"
  ioFails :: "nat \<Rightarrow> bool"
  rankSets :: "nat \<Rightarrow> cidrSetID \<Rightarrow> nat"
  rankKeys :: "nat \<Rightarrow> WorldCIDRKey4 \<Rightarrow> nat"

definition tick :: "state \<Rightarrow> state" where
  "tick s = s\<lparr>clock := Suc (clock s)\<rparr>"

definition logWith :: "logLevel \<Rightarrow> logField list \<Rightarrow> string \<Rightarrow> state \<Rightarrow> state" where
  "logWith lv fs msg s = s\<lparr>logs := logs s @ [\<lparr>level = lv, logFields = fs, message = msg\<rparr>]\<rparr>"

subsection \<open>Package worldcidrsmap: the table adapter\<close>

text \<open>
  Modelled from the spec: \<open>WorldCIDRsMap.IterateWithCallback\<close> is missing from the
  sources. The spec: "Iterate(callback over (key, value) pairs) -- full scan". Both
  callers pass a callback that stores each key in a fresh Go map, so the model returns
  the keys of that map: the stored keys, each once.
\<close>

definition IterateWithCallback :: "state \<Rightarrow> WorldCIDRKey4 list \<times> state" where
  "IterateWithCallback s = (remdups (table s), s\<lparr>calls := calls s @ [(Iterate, None)]\<rparr>)"

text \<open>
  Modelled from the spec: \<open>WorldCIDRsMap.Add\<close> is missing from the sources. The spec:
  "Add(prefix) error", under the key-equality contract "two representations of the same
  network (same prefix length, same address after masking to that prefix) must compare
  equal". A successful call stores the normalized key of the prefix in place of any
  entry of the same network; a failed call leaves the table as it was.
\<close>

definition WorldCIDRsMap_Add :: "env \<Rightarrow> IPNet \<Rightarrow> state \<Rightarrow> error option \<times> state" where
  "WorldCIDRsMap_Add e cidr s =
     (let key = NewWorldCIDRKey4 cidr;
          err = (if ioFails e (clock s) then Some ErrIO else None);
          tab = (if err = None then filter (\<lambda>k. normKey k \<noteq> key) (table s) @ [key]
                 else table s)
      in (err, s\<lparr>table := tab, calls := calls s @ [(Add cidr, err)], clock := Suc (clock s)\<rparr>))"

text \<open>
  Modelled from the spec: \<open>WorldCIDRsMap.Delete\<close> is missing from the sources. The spec:
  "Delete(prefix) error (fails if the prefix is not present)", under the same
  key-equality contract. A successful call removes the entries of that network.
\<close>

definition WorldCIDRsMap_Delete :: "env \<Rightarrow> IPNet \<Rightarrow> state \<Rightarrow> error option \<times> state" where
  "WorldCIDRsMap_Delete e cidr s =
     (let key = NewWorldCIDRKey4 cidr;
          err = (if \<not> list_ex (\<lambda>k. normKey k = key) (table s) then Some ErrNotFound
                 else if ioFails e (clock s) then Some ErrIO else None);
          tab = (if err = None then filter (\<lambda>k. normKey k \<noteq> key) (table s) else table s)
      in (err, s\<lparr>table := tab, calls := calls s @ [(Delete cidr, err)], clock := Suc (clock s)\<rparr>))"

section \<open>The manager\<close>

text \<open>
  \<open>for _, cidrSet := range manager.cidrSets\<close>: the sets of the store, in the order the
  environment picks at this moment.
\<close>

definition rangeCIDRSets :: "env \<Rightarrow> state \<Rightarrow> CIDRSet list \<times> state" where
  "rangeCIDRSets e s =
     (map snd (sort_key (\<lambda>p. rankSets e (clock s) (fst p)) (DAList.impl_of (cidrSets s))),
      tick s)"

text \<open>\<open>for worldCIDR := range worldCIDRs\<close>: the keys of a snapshot, in some order.\<close>

definition rangeWorldCIDRs :: "env \<Rightarrow> WorldCIDRKey4 list \<Rightarrow> state \<Rightarrow> WorldCIDRKey4 list \<times> state" where
  "rangeWorldCIDRs e worldCIDRs s = (sort_key (rankKeys e (clock s)) worldCIDRs, tick s)"

text \<open>The closure \<open>addCIDR\<close> of \<open>addMissingCIDRs\<close>.\<close>

definition addCIDR :: "env \<Rightarrow> WorldCIDRKey4 list \<Rightarrow> IPNet \<Rightarrow> state \<Rightarrow> state" where
  "addCIDR e worldCIDRs cidr s =
     (let worldCIDRKey = NewWorldCIDRKey4 cidr;
          cidrPresent = (worldCIDRKey \<in> set worldCIDRs)
      in if cidrPresent then s
         else (case WorldCIDRsMap_Add e cidr s of
                 (Some err, s') \<Rightarrow>
                   logWith ErrorLevel [CIDR cidr, ErrorField err] ''Error adding world CIDR'' s'
               | (None, s') \<Rightarrow> logWith InfoLevel [CIDR cidr] ''World CIDR added'' s'))"

definition addMissingCIDRs :: "env \<Rightarrow> state \<Rightarrow> state" where
  "addMissingCIDRs e s =
     (let (worldCIDRs, s1) = IterateWithCallback s;
          (sets, s2) = rangeCIDRSets e s1
      in fold (\<lambda>cidrSet. fold (addCIDR e worldCIDRs) (cidrs cidrSet)) sets s2)"

text \<open>
  The two inner loops of \<open>removeUnusedCIDRs\<close>, left by \<open>continue nextCIDR\<close> at the first
  match: a search without effects, whose result does not depend on the order of the
  visit (lemma \<open>matchesAny_iff\<close> below).
\<close>

definition matchesAny :: "state \<Rightarrow> WorldCIDRKey4 \<Rightarrow> bool" where
  "matchesAny s worldCIDR =
     list_ex (\<lambda>p. list_ex (Matches worldCIDR) (cidrs (snd p))) (DAList.impl_of (cidrSets s))"

text \<open>The body of the loop labelled \<open>nextCIDR\<close>.\<close>

definition removeCIDR :: "env \<Rightarrow> WorldCIDRKey4 \<Rightarrow> state \<Rightarrow> state" where
  "removeCIDR e worldCIDR s =
     (if matchesAny s worldCIDR then s
      else (case WorldCIDRsMap_Delete e (GetCIDR worldCIDR) s of
              (Some err, s') \<Rightarrow>
                logWith ErrorLevel [CIDR (GetCIDR worldCIDR), ErrorField err]
                  ''Error removing world CIDR'' s'
            | (None, s') \<Rightarrow>
                logWith InfoLevel [CIDR (GetCIDR worldCIDR)] ''World CIDR removed'' s'))"

definition removeUnusedCIDRs :: "env \<Rightarrow> state \<Rightarrow> state" where
  "removeUnusedCIDRs e s =
     (let (worldCIDRs, s1) = IterateWithCallback s;
          (keys, s2) = rangeWorldCIDRs e worldCIDRs s1
      in fold (removeCIDR e) keys s2)"

definition reconcile :: "env \<Rightarrow> state \<Rightarrow> state" where
  "reconcile e s =
     (let synced = K8sCacheIsSynced e (clock s);
          s1 = tick s
      in if \<not> synced then s1
         else removeUnusedCIDRs e (addMissingCIDRs e s1))"

definition OnAddWorldCIDRSet :: "env \<Rightarrow> CIDRSet \<Rightarrow> state \<Rightarrow> state" where
  "OnAddWorldCIDRSet e cidrSet s =
     (let s1 = (if DAList.lookup (cidrSets s) (id' cidrSet) = None
                then logWith InfoLevel [CiliumWorldCIDRSetName (Name (id' cidrSet))]
                       ''Added CiliumWorldCIDRSet'' s
                else logWith InfoLevel [CiliumWorldCIDRSetName (Name (id' cidrSet))]
                       ''Updated CiliumWorldCIDRSet'' s);
          s2 = s1\<lparr>cidrSets := DAList.update (id' cidrSet) cidrSet (cidrSets s1)\<rparr>
      in reconcile e s2)"

definition OnDeleteWorldCIDRSet :: "env \<Rightarrow> cidrSetID \<Rightarrow> state \<Rightarrow> state" where
  "OnDeleteWorldCIDRSet e i s =
     (if DAList.lookup (cidrSets s) i = None
      then logWith WarnLevel [CiliumWorldCIDRSetName (Name i)]
             ''Can't delete CiliumWorldCIDRSet: set not found'' s
      else
        (let s1 = s\<lparr>cidrSets := DAList.delete i (cidrSets s)\<rparr>;
             s2 = logWith InfoLevel [CiliumWorldCIDRSetName (Name i)]
                    ''Deleted CiliumWorldCIDRSet'' s1
         in reconcile e s2))"

text \<open>
  The goroutine of \<open>runReconciliationAfterK8sSync\<close>: it asks the oracle until the
  answer is yes (sleeping in between), then takes the lock and calls \<open>reconcile\<close>. The
  loop need not end, so its result is optional. \<open>runReconciliationAfterK8sSync\<close> is the
  run of the goroutine in which no handler gets the lock between the loop and
  \<open>reconcile\<close>.
\<close>

partial_function (option) waitForK8sSync :: "env \<Rightarrow> state \<Rightarrow> state option" where
  "waitForK8sSync e s =
     (if K8sCacheIsSynced e (clock s) then Some (tick s) else waitForK8sSync e (tick s))"

definition runReconciliationAfterK8sSync :: "env \<Rightarrow> state \<Rightarrow> state option" where
  "runReconciliationAfterK8sSync e s =
     (case waitForK8sSync e s of None \<Rightarrow> None | Some s1 \<Rightarrow> Some (reconcile e s1))"

text \<open>
  \<open>NewWorldCIDRsManager\<close>: the store starts empty; the table is whatever the kernel
  holds at that moment. The goroutine that the constructor spawns is
  \<open>runReconciliationAfterK8sSync\<close> above, run as a step of its own.
\<close>

definition NewWorldCIDRsManager :: "WorldCIDRKey4 list \<Rightarrow> state" where
  "NewWorldCIDRsManager tab =
     \<lparr>cidrSets = DAList.empty, table = tab, calls = [], logs = [], clock = 0\<rparr>"

section \<open>Notions used by the statements\<close>

text \<open>The adapter calls issued between a state and a later one.\<close>

definition issued :: "state \<Rightarrow> state \<Rightarrow> (tableCall \<times> error option) list" where
  "issued s s' = drop (length (calls s)) (calls s')"

text \<open>Every adapter call issued between the two states returned no error.\<close>

definition allSucceeded :: "state \<Rightarrow> state \<Rightarrow> bool" where
  "allSucceeded s s' = list_all (\<lambda>c. snd c = None) (issued s s')"

text \<open>The union, across all CIDR sets of the store, of their normalized prefixes.\<close>

definition desiredUnion :: "state \<Rightarrow> WorldCIDRKey4 set" where
  "desiredUnion s = (\<Union>p \<in> set (DAList.impl_of (cidrSets s)). NewWorldCIDRKey4 ` set (cidrs (snd p)))"

text \<open>
  Every listing of a prefix by a set of the store: the prefixes of all sets, with their
  repetitions, a prefix listed by two sets or twice by one set appearing as often.
\<close>

definition listedCIDRs :: "state \<Rightarrow> IPNet list" where
  "listedCIDRs s = concat (map (\<lambda>p. cidrs (snd p)) (DAList.impl_of (cidrSets s)))"

text \<open>The normalized prefixes of the entries of the table.\<close>

definition tablePrefixes :: "state \<Rightarrow> WorldCIDRKey4 set" where
  "tablePrefixes s = normKey ` set (table s)"

text \<open>The result of an \<open>Add\<close> issued in a state.\<close>

definition ioResult :: "env \<Rightarrow> state \<Rightarrow> error option" where
  "ioResult e s = (if ioFails e (clock s) then Some ErrIO else None)"

text \<open>The result of a \<open>Delete\<close> of the prefix of a key, issued in a state.\<close>

definition deleteResult :: "env \<Rightarrow> WorldCIDRKey4 \<Rightarrow> state \<Rightarrow> error option" where
  "deleteResult e k s =
     (if normKey k \<notin> tablePrefixes s then Some ErrNotFound
      else if ioFails e (clock s) then Some ErrIO else None)"

text \<open>The prefixes that the nested loops of \<open>addMissingCIDRs\<close> visit, in order.\<close>

definition rangedCIDRs :: "env \<Rightarrow> state \<Rightarrow> IPNet list" where
  "rangedCIDRs e s = concat (map cidrs (fst (rangeCIDRSets e s)))"

text \<open>The keys that the loop of \<open>removeUnusedCIDRs\<close> visits, in order.\<close>

definition rangedKeys :: "env \<Rightarrow> state \<Rightarrow> WorldCIDRKey4 list" where
  "rangedKeys e s = fst (rangeWorldCIDRs e (fst (IterateWithCallback s)) s)"

text \<open>The position of a key in a list of keys: a rank that sorts into the order of that list.\<close>

definition rankOf :: "'a list \<Rightarrow> 'a \<Rightarrow> nat" where
  "rankOf ys k = length (takeWhile (\<lambda>y. y \<noteq> k) ys)"

text \<open>
  The events that the watch layer delivers, and the manager handling a sequence of them,
  one handler call after the other.
\<close>

datatype event = AddOrUpdate CIDRSet | DeleteEvent cidrSetID

definition handleEvent :: "env \<Rightarrow> event \<Rightarrow> state \<Rightarrow> state" where
  "handleEvent e ev s =
     (case ev of AddOrUpdate cidrSet \<Rightarrow> OnAddWorldCIDRSet e cidrSet s
               | DeleteEvent i \<Rightarrow> OnDeleteWorldCIDRSet e i s)"

definition handleEvents :: "env \<Rightarrow> event list \<Rightarrow> state \<Rightarrow> state" where
  "handleEvents e evs s = fold (handleEvent e) evs s"

text \<open>
  The store as the spec describes it, with no table in sight: "An add/update event with an
  identity already present replaces that entry wholesale (no partial merge). A delete
  event removes the entry; deleting an unknown identity is a no-op."
\<close>

definition specStoreAfter ::
    "event \<Rightarrow> (cidrSetID, CIDRSet) alist \<Rightarrow> (cidrSetID, CIDRSet) alist" where
  "specStoreAfter ev store =
     (case ev of AddOrUpdate cidrSet \<Rightarrow> DAList.update (id' cidrSet) cidrSet store
               | DeleteEvent i \<Rightarrow> DAList.delete i store)"

text \<open>Kinds of adapter calls.\<close>

definition isAdd :: "tableCall \<times> error option \<Rightarrow> bool" where
  "isAdd c = (case fst c of Add cidr \<Rightarrow> True | _ \<Rightarrow> False)"

definition isDelete :: "tableCall \<times> error option \<Rightarrow> bool" where
  "isDelete c = (case fst c of Delete cidr \<Rightarrow> True | _ \<Rightarrow> False)"

text \<open>The log records written between a state and a later one.\<close>

definition logged :: "state \<Rightarrow> state \<Rightarrow> logEntry list" where
  "logged s s' = drop (length (logs s)) (logs s')"

text \<open>The log record that \<open>addCIDR\<close> and the loop of \<open>removeUnusedCIDRs\<close> write for a call.\<close>

fun logOfCall :: "tableCall \<times> error option \<Rightarrow> logEntry list" where
  "logOfCall (Iterate, r) = []"
| "logOfCall (Add cidr, None) =
     [\<lparr>level = InfoLevel, logFields = [CIDR cidr], message = ''World CIDR added''\<rparr>]"
| "logOfCall (Add cidr, Some err) =
     [\<lparr>level = ErrorLevel, logFields = [CIDR cidr, ErrorField err],
       message = ''Error adding world CIDR''\<rparr>]"
| "logOfCall (Delete cidr, None) =
     [\<lparr>level = InfoLevel, logFields = [CIDR cidr], message = ''World CIDR removed''\<rparr>]"
| "logOfCall (Delete cidr, Some err) =
     [\<lparr>level = ErrorLevel, logFields = [CIDR cidr, ErrorField err],
       message = ''Error removing world CIDR''\<rparr>]"

text \<open>
  Between the two states the calls only grow, and the log grows by the record of each
  \<open>Add\<close> and \<open>Delete\<close> issued, in the order of the calls.
\<close>

definition tracked :: "state \<Rightarrow> state \<Rightarrow> bool" where
  "tracked s s' =
     (prefix (calls s) (calls s') \<and> logs s' = logs s @ concat (map logOfCall (issued s s')))"

text \<open>
  Overlap, as opposed to equality: the network of the key lies inside the network of the
  prefix.
\<close>

definition coveredBy :: "WorldCIDRKey4 \<Rightarrow> IPNet \<Rightarrow> bool" where
  "coveredBy k cidr =
     (Mask cidr \<le> PrefixLen k \<and>
      Addr k AND CIDRMask (Mask cidr) = IP cidr AND CIDRMask (Mask cidr))"

section \<open>Concrete inputs\<close>

definition net10 :: IPNet where "net10 = \<lparr>IP = 0x0A000000, Mask = 8\<rparr>"
definition net10_1 :: IPNet where "net10_1 = \<lparr>IP = 0x0A010000, Mask = 16\<rparr>"
definition net172 :: IPNet where "net172 = \<lparr>IP = 0xAC100000, Mask = 12\<rparr>"
definition net192 :: IPNet where "net192 = \<lparr>IP = 0xC0A80000, Mask = 16\<rparr>"

definition idA :: cidrSetID where "idA = \<lparr>Namespace = ''default'', Name = ''a''\<rparr>"
definition idB :: cidrSetID where "idB = \<lparr>Namespace = ''default'', Name = ''b''\<rparr>"
definition idC :: cidrSetID where "idC = \<lparr>Namespace = ''default'', Name = ''c''\<rparr>"

definition setA :: CIDRSet where "setA = \<lparr>id' = idA, cidrs = [net10]\<rparr>"
definition setB :: CIDRSet where "setB = \<lparr>id' = idB, cidrs = [net10, net192]\<rparr>"
definition setA2 :: CIDRSet where "setA2 = \<lparr>id' = idA, cidrs = [net172]\<rparr>"
definition setA3 :: CIDRSet where "setA3 = \<lparr>id' = idA, cidrs = [net10_1]\<rparr>"
definition setC :: CIDRSet where "setC = \<lparr>id' = idC, cidrs = [net172, net192]\<rparr>"

text \<open>Always synced, no I/O failure, every range in the stored order.\<close>

definition envReady :: env where
  "envReady = \<lparr>K8sCacheIsSynced = (\<lambda>n. True), ioFails = (\<lambda>n. False),
                rankSets = (\<lambda>n i. 0), rankKeys = (\<lambda>n k. 0)\<rparr>"

text \<open>Never synced.\<close>

definition envNotReady :: env where
  "envNotReady = envReady\<lparr>K8sCacheIsSynced := (\<lambda>n. False)\<rparr>"

text \<open>Synced at the first question only.\<close>

definition envFlip :: env where
  "envFlip = envReady\<lparr>K8sCacheIsSynced := (\<lambda>n. n = 0)\<rparr>"

text \<open>The store holds the sets a and b; the table holds one entry, 10.1.0.0/16.\<close>

definition stateAB :: state where
  "stateAB = (NewWorldCIDRsManager [NewWorldCIDRKey4 net10_1])
               \<lparr>cidrSets := DAList.update idB setB (DAList.update idA setA DAList.empty)\<rparr>"

text \<open>An empty store, and a table that holds one entry.\<close>

definition stateStale :: state where
  "stateStale = NewWorldCIDRsManager [NewWorldCIDRKey4 net10_1]"

text \<open>As \<open>envReady\<close>, but the oracle answers not synced to the first question.\<close>

definition envLate :: env where
  "envLate = envReady\<lparr>K8sCacheIsSynced := (\<lambda>n. 0 < n)\<rparr>"

text \<open>As \<open>envReady\<close>, but the consultation at clock value 2 is an I/O failure.\<close>

definition envFail2 :: env where
  "envFail2 = envReady\<lparr>ioFails := (\<lambda>n. n = 2)\<rparr>"

text \<open>As \<open>envReady\<close>, but the consultation at clock value 3 is an I/O failure.\<close>

definition envFail3 :: env where
  "envFail3 = envReady\<lparr>ioFails := (\<lambda>n. n = 3)\<rparr>"

text \<open>The store holds the sets a and c; the table holds one entry, 10.1.0.0/16.\<close>

definition stateAC :: state where
  "stateAC = (NewWorldCIDRsManager [NewWorldCIDRKey4 net10_1])
               \<lparr>cidrSets := DAList.update idC setC (DAList.update idA setA DAList.empty)\<rparr>"

definition someEvents :: "event list" where
  "someEvents = [AddOrUpdate setA, AddOrUpdate setB, DeleteEvent idC, AddOrUpdate setA2,
                 DeleteEvent idB]"

section \<open>Lemmas\<close>

lemma tick_simps [simp]:
  "cidrSets (tick s) = cidrSets s" "table (tick s) = table s" "calls (tick s) = calls s"
  "logs (tick s) = logs s" "clock (tick s) = Suc (clock s)"
  by (simp_all add: tick_def)

lemma logWith_simps [simp]:
  "cidrSets (logWith lv fs msg s) = cidrSets s" "table (logWith lv fs msg s) = table s"
  "calls (logWith lv fs msg s) = calls s" "clock (logWith lv fs msg s) = clock s"
  "logs (logWith lv fs msg s) = logs s @ [\<lparr>level = lv, logFields = fs, message = msg\<rparr>]"
  by (simp_all add: logWith_def)

lemma Iterate_simps [simp]:
  "fst (IterateWithCallback s) = remdups (table s)"
  "cidrSets (snd (IterateWithCallback s)) = cidrSets s"
  "table (snd (IterateWithCallback s)) = table s"
  "calls (snd (IterateWithCallback s)) = calls s @ [(Iterate, None)]"
  "logs (snd (IterateWithCallback s)) = logs s"
  "clock (snd (IterateWithCallback s)) = clock s"
  by (simp_all add: IterateWithCallback_def)

lemma normKey_idem [simp]: "normKey (normKey k) = normKey k"
  by (simp add: normKey_def NewWorldCIDRKey4_def GetCIDR_def word_bw_assocs)

lemma normKey_New [simp]: "normKey (NewWorldCIDRKey4 c) = NewWorldCIDRKey4 c"
  by (simp add: normKey_def NewWorldCIDRKey4_def GetCIDR_def word_bw_assocs)

lemma New_GetCIDR: "NewWorldCIDRKey4 (GetCIDR k) = normKey k"
  by (simp add: normKey_def)

lemma GetCIDR_inj [simp]: "GetCIDR k = GetCIDR k' \<longleftrightarrow> k = k'"
  by (cases k, cases k') (auto simp add: GetCIDR_def)

lemma addCIDR_cidrSets [simp]: "cidrSets (addCIDR e w c s) = cidrSets s"
  by (simp add: addCIDR_def WorldCIDRsMap_Add_def Let_def)

lemma addCIDR_calls:
  "calls (addCIDR e w c s) =
     calls s @ (if NewWorldCIDRKey4 c \<in> set w then [] else [(Add c, ioResult e s)])"
  by (simp add: addCIDR_def WorldCIDRsMap_Add_def Let_def ioResult_def)

lemma addCIDR_table:
  "table (addCIDR e w c s) =
     (if NewWorldCIDRKey4 c \<in> set w \<or> ioFails e (clock s) then table s
      else filter (\<lambda>k. normKey k \<noteq> NewWorldCIDRKey4 c) (table s) @ [NewWorldCIDRKey4 c])"
  by (simp add: addCIDR_def WorldCIDRsMap_Add_def Let_def)

lemma addCIDR_logs:
  "logs (addCIDR e w c s) =
     logs s @ (if NewWorldCIDRKey4 c \<in> set w then []
               else if ioFails e (clock s)
                    then [\<lparr>level = ErrorLevel, logFields = [CIDR c, ErrorField ErrIO], message = ''Error adding world CIDR''\<rparr>]
                    else [\<lparr>level = InfoLevel, logFields = [CIDR c], message = ''World CIDR added''\<rparr>])"
  by (simp add: addCIDR_def WorldCIDRsMap_Add_def Let_def)

lemma matchesAny_iff: "matchesAny s k \<longleftrightarrow> normKey k \<in> desiredUnion s"
  by (auto simp: matchesAny_def desiredUnion_def list_ex_iff Matches_def)

lemma matchesAny_cong: "cidrSets s = cidrSets s' \<Longrightarrow> matchesAny s k = matchesAny s' k"
  by (simp add: matchesAny_def)

lemma desiredUnion_cong: "cidrSets s = cidrSets s' \<Longrightarrow> desiredUnion s = desiredUnion s'"
  by (simp add: desiredUnion_def)

lemma absent_iff:
  "(\<not> list_ex (\<lambda>k'. normKey k' = normKey k) (table s)) = (normKey k \<notin> tablePrefixes s)"
  unfolding list_ex_iff tablePrefixes_def image_iff by metis

lemma removeCIDR_cidrSets [simp]: "cidrSets (removeCIDR e k s) = cidrSets s"
  by (simp add: removeCIDR_def WorldCIDRsMap_Delete_def Let_def)

lemma removeCIDR_calls:
  "calls (removeCIDR e k s) =
     calls s @ (if matchesAny s k then [] else [(Delete (GetCIDR k), deleteResult e k s)])"
  by (simp add: removeCIDR_def WorldCIDRsMap_Delete_def Let_def deleteResult_def New_GetCIDR absent_iff)

lemma removeCIDR_table:
  "table (removeCIDR e k s) =
     (if matchesAny s k \<or> deleteResult e k s \<noteq> None then table s
      else filter (\<lambda>k'. normKey k' \<noteq> normKey k) (table s))"
  by (simp add: removeCIDR_def WorldCIDRsMap_Delete_def Let_def deleteResult_def New_GetCIDR absent_iff)

lemma removeCIDR_logs:
  "logs (removeCIDR e k s) =
     logs s @ (if matchesAny s k then []
               else case deleteResult e k s of
                      Some err \<Rightarrow> [\<lparr>level = ErrorLevel, logFields = [CIDR (GetCIDR k), ErrorField err],
                                    message = ''Error removing world CIDR''\<rparr>]
                    | None \<Rightarrow> [\<lparr>level = InfoLevel, logFields = [CIDR (GetCIDR k)],
                                message = ''World CIDR removed''\<rparr>])"
  by (simp add: removeCIDR_def WorldCIDRsMap_Delete_def Let_def deleteResult_def New_GetCIDR absent_iff)

subsection \<open>Every order of a range is the order of some rank\<close>

lemma rankOf_Cons: "rankOf (y # ys) k = (if y = k then 0 else Suc (rankOf ys k))"
  by (simp add: rankOf_def)

lemma map_rankOf: "distinct ys \<Longrightarrow> map (rankOf ys) ys = [0..<length ys]"
proof (induction ys)
  case Nil
  show ?case by simp
next
  case (Cons y ys)
  have "map (rankOf (y # ys)) ys = map (\<lambda>k. Suc (rankOf ys k)) ys"
    using Cons.prems by (auto simp: rankOf_Cons)
  also have "\<dots> = map Suc (map (rankOf ys) ys)" by simp
  also have "\<dots> = map Suc [0..<length ys]" using Cons by simp
  also have "\<dots> = [Suc 0..<Suc (length ys)]" by (rule map_Suc_upt)
  finally have "map (rankOf (y # ys)) (y # ys) = 0 # [Suc 0..<Suc (length ys)]"
    by (simp add: rankOf_Cons)
  also have "\<dots> = [0..<Suc (length ys)]" by (simp add: upt_conv_Cons del: upt_Suc)
  finally show ?case by simp
qed

lemma rankOf_eq: "a \<in> set ys \<Longrightarrow> b \<in> set ys \<Longrightarrow> rankOf ys a = rankOf ys b \<Longrightarrow> a = b"
  by (induction ys) (auto simp: rankOf_Cons split: if_splits)


lemma any_order_by_rank:
  assumes "mset ys = mset xs" and "distinct (map f xs)"
  shows "sort_key (\<lambda>x. rankOf (map f ys) (f x)) xs = ys"
proof (rule sort_key_inj_key_eq)
  show "mset xs = mset ys" using assms(1) by simp
  have "mset (map f ys) = mset (map f xs)" using assms(1) by simp
  then have d: "distinct (map f ys)"
    using assms(2) mset_eq_imp_distinct_iff by blast
  have s: "set xs = set ys" using assms(1) by (rule mset_eq_setD [symmetric])
  show "inj_on (\<lambda>x. rankOf (map f ys) (f x)) (set xs)"
  proof (rule inj_onI)
    fix a b assume ab: "a \<in> set xs" "b \<in> set xs"
      and eq: "rankOf (map f ys) (f a) = rankOf (map f ys) (f b)"
    from ab s have "f a \<in> set (map f ys)" "f b \<in> set (map f ys)" by auto
    then have "f a = f b" using eq by (rule rankOf_eq)
    moreover have "inj_on f (set xs)" using assms(2) by (simp add: distinct_map)
    ultimately show "a = b" using ab by (auto dest: inj_onD)
  qed
  have "map (\<lambda>x. rankOf (map f ys) (f x)) ys = map (rankOf (map f ys)) (map f ys)" by simp
  also have "\<dots> = [0..<length ys]" using map_rankOf [OF d] by simp
  finally show "sorted (map (\<lambda>x. rankOf (map f ys) (f x)) ys)" by simp
qed

text \<open>
  So the two ranges of a pass can take any order: whatever permutation of the store's
  entries and of the snapshot's keys one picks, some environment makes
  \<open>rangeCIDRSets\<close> and \<open>rangeWorldCIDRs\<close> visit them in that order.
\<close>

lemma rangeCIDRSets_any_order:
  assumes "mset ps = mset (DAList.impl_of (cidrSets s))"
  shows "fst (rangeCIDRSets (e\<lparr>rankSets := \<lambda>n. rankOf (map fst ps)\<rparr>) s) = map snd ps"
  using any_order_by_rank [OF assms, of fst] by (simp add: rangeCIDRSets_def)

lemma rangeWorldCIDRs_any_order:
  assumes "mset ks = mset w" and "distinct w"
  shows "fst (rangeWorldCIDRs (e\<lparr>rankKeys := \<lambda>n. rankOf ks\<rparr>) w s) = ks"
  using any_order_by_rank [OF assms(1), of "\<lambda>k. k"] assms(2)
  by (simp add: rangeWorldCIDRs_def)

subsection \<open>Calls issued between two states\<close>

lemma issued_self [simp]: "issued s s = []"
  by (simp add: issued_def)

lemma issued_append:
  assumes "prefix (calls s) (calls s')" and "prefix (calls s') (calls s'')"
  shows "issued s s'' = issued s s' @ issued s' s''"
proof -
  from assms obtain a b where "calls s' = calls s @ a" "calls s'' = calls s' @ b"
    by (auto simp: prefix_def)
  then show ?thesis by (simp add: issued_def)
qed

lemma allSucceeded_append:
  assumes "prefix (calls s) (calls s')" and "prefix (calls s') (calls s'')"
  shows "allSucceeded s s'' \<longleftrightarrow> allSucceeded s s' \<and> allSucceeded s' s''"
  by (simp add: allSucceeded_def issued_append [OF assms])

lemma addCIDR_prefix: "prefix (calls s) (calls (addCIDR e w c s))"
  by (simp add: addCIDR_calls)

lemma removeCIDR_prefix: "prefix (calls s) (calls (removeCIDR e k s))"
  by (simp add: removeCIDR_calls)

subsection \<open>Phase 1: the loop over the desired prefixes\<close>

lemma fold_concat_map: "fold (\<lambda>x. fold f (g x)) xs s = fold f (concat (map g xs)) s"
  by (induction xs arbitrary: s) simp_all

lemma addLoop_cidrSets [simp]: "cidrSets (fold (addCIDR e w) cs s) = cidrSets s"
  by (induction cs arbitrary: s) simp_all

lemma addLoop_prefix: "prefix (calls s) (calls (fold (addCIDR e w) cs s))"
proof (induction cs arbitrary: s)
  case Nil
  show ?case by simp
next
  case (Cons c cs)
  have "prefix (calls s) (calls (addCIDR e w c s))" by (rule addCIDR_prefix)
  also have "prefix \<dots> (calls (fold (addCIDR e w) cs (addCIDR e w c s)))" by (rule Cons.IH)
  finally show ?case by simp
qed

lemma addLoop_calls:
  "map fst (calls (fold (addCIDR e w) cs s)) =
     map fst (calls s) @ map Add (filter (\<lambda>c. NewWorldCIDRKey4 c \<notin> set w) cs)"
  by (induction cs arbitrary: s) (simp_all add: addCIDR_calls)

lemma addLoop_keeps:
  "d \<in> set (table s) \<Longrightarrow> normKey d = d \<Longrightarrow> d \<in> set (table (fold (addCIDR e w) cs s))"
proof (induction cs arbitrary: s)
  case Nil
  then show ?case by simp
next
  case (Cons c cs)
  have "d \<in> set (table (addCIDR e w c s))"
    using Cons.prems by (auto simp: addCIDR_table)
  then show ?case using Cons.IH Cons.prems(2) by simp
qed

lemma addLoop_table_subset:
  "set (table (fold (addCIDR e w) cs s)) \<subseteq> set (table s) \<union> NewWorldCIDRKey4 ` set cs"
proof (induction cs arbitrary: s)
  case Nil
  show ?case by simp
next
  case (Cons c cs)
  have "set (table (addCIDR e w c s)) \<subseteq> set (table s) \<union> {NewWorldCIDRKey4 c}"
    by (auto simp: addCIDR_table)
  with Cons.IH [of "addCIDR e w c s"] show ?case by auto
qed

lemma addLoop_adds:
  assumes "allSucceeded s (fold (addCIDR e w) cs s)" and "c \<in> set cs"
    and "NewWorldCIDRKey4 c \<notin> set w"
  shows "NewWorldCIDRKey4 c \<in> set (table (fold (addCIDR e w) cs s))"
  using assms
proof (induction cs arbitrary: s)
  case Nil
  then show ?case by simp
next
  case (Cons x cs)
  let ?s1 = "addCIDR e w x s"
  have split: "allSucceeded s ?s1 \<and> allSucceeded ?s1 (fold (addCIDR e w) cs ?s1)"
    using Cons.prems(1) by (simp add: allSucceeded_append [OF addCIDR_prefix addLoop_prefix])
  show ?case
  proof (cases "c \<in> set cs")
    case True
    with Cons.IH [of ?s1] split Cons.prems(3) show ?thesis by simp
  next
    case False
    with Cons.prems(2) have [simp]: "x = c" by simp
    from split Cons.prems(3) have "\<not> ioFails e (clock s)"
      by (auto simp: allSucceeded_def issued_def addCIDR_calls ioResult_def split: if_splits)
    then have "NewWorldCIDRKey4 c \<in> set (table ?s1)"
      using Cons.prems(3) by (simp add: addCIDR_table)
    then show ?thesis using addLoop_keeps [of "NewWorldCIDRKey4 c" ?s1 e w cs] by simp
  qed
qed

subsection \<open>Phase 2: the loop over the snapshot\<close>

lemma removeLoop_cidrSets [simp]: "cidrSets (fold (removeCIDR e) ks s) = cidrSets s"
  by (induction ks arbitrary: s) simp_all

lemma removeLoop_prefix: "prefix (calls s) (calls (fold (removeCIDR e) ks s))"
proof (induction ks arbitrary: s)
  case Nil
  show ?case by simp
next
  case (Cons k ks)
  have "prefix (calls s) (calls (removeCIDR e k s))" by (rule removeCIDR_prefix)
  also have "prefix \<dots> (calls (fold (removeCIDR e) ks (removeCIDR e k s)))" by (rule Cons.IH)
  finally show ?case by simp
qed

lemma removeLoop_calls:
  "map fst (calls (fold (removeCIDR e) ks s)) =
     map fst (calls s) @ map (\<lambda>k. Delete (GetCIDR k)) (filter (\<lambda>k. \<not> matchesAny s k) ks)"
proof (induction ks arbitrary: s)
  case Nil
  show ?case by simp
next
  case (Cons k ks)
  have "matchesAny (removeCIDR e k s) = matchesAny s"
    by (rule ext) (simp add: matchesAny_cong [of "removeCIDR e k s" s])
  then show ?case by (simp add: Cons.IH removeCIDR_calls)
qed

lemma removeLoop_table_subset: "set (table (fold (removeCIDR e) ks s)) \<subseteq> set (table s)"
proof (induction ks arbitrary: s)
  case Nil
  show ?case by simp
next
  case (Cons k ks)
  have "set (table (removeCIDR e k s)) \<subseteq> set (table s)"
    by (auto simp: removeCIDR_table)
  with Cons.IH [of "removeCIDR e k s"] show ?case by auto
qed

lemma removeLoop_keeps:
  "d \<in> set (table s) \<Longrightarrow> normKey d \<in> desiredUnion s \<Longrightarrow> d \<in> set (table (fold (removeCIDR e) ks s))"
proof (induction ks arbitrary: s)
  case Nil
  then show ?case by simp
next
  case (Cons k ks)
  let ?s1 = "removeCIDR e k s"
  have "d \<in> set (table ?s1)"
    using Cons.prems by (auto simp: removeCIDR_table matchesAny_iff)
  moreover have "desiredUnion ?s1 = desiredUnion s"
    by (simp add: desiredUnion_cong [of ?s1 s])
  ultimately show ?case using Cons.IH [of ?s1] Cons.prems(2) by simp
qed

lemma removeLoop_removes:
  assumes "allSucceeded s (fold (removeCIDR e) ks s)" and "k \<in> set ks" and "\<not> matchesAny s k"
  shows "k \<notin> set (table (fold (removeCIDR e) ks s))"
  using assms
proof (induction ks arbitrary: s)
  case Nil
  then show ?case by simp
next
  case (Cons x ks)
  let ?s1 = "removeCIDR e x s"
  have split: "allSucceeded s ?s1 \<and> allSucceeded ?s1 (fold (removeCIDR e) ks ?s1)"
    using Cons.prems(1) by (simp add: allSucceeded_append [OF removeCIDR_prefix removeLoop_prefix])
  have same: "matchesAny ?s1 k = matchesAny s k"
    by (simp add: matchesAny_cong [of ?s1 s])
  show ?case
  proof (cases "k \<in> set ks")
    case True
    with Cons.IH [of ?s1] split Cons.prems(3) same show ?thesis by simp
  next
    case False
    with Cons.prems(2) have [simp]: "x = k" by simp
    from split Cons.prems(3) have "deleteResult e k s = None"
      by (auto simp: allSucceeded_def issued_def removeCIDR_calls split: if_splits)
    then have "k \<notin> set (table ?s1)"
      using Cons.prems(3) by (simp add: removeCIDR_table)
    then show ?thesis using removeLoop_table_subset [of e ks ?s1] by auto
  qed
qed

subsection \<open>The two phases and the pass\<close>

lemma addMissing_unfold:
  "addMissingCIDRs e s =
     fold (addCIDR e (remdups (table s))) (rangedCIDRs e s) (tick (snd (IterateWithCallback s)))"
  by (simp add: addMissingCIDRs_def rangedCIDRs_def rangeCIDRSets_def split_def fold_concat_map)

lemma removeUnused_unfold:
  "removeUnusedCIDRs e s =
     fold (removeCIDR e) (rangedKeys e s) (tick (snd (IterateWithCallback s)))"
  by (simp add: removeUnusedCIDRs_def rangedKeys_def rangeWorldCIDRs_def split_def)

lemma set_rangedCIDRs: "NewWorldCIDRKey4 ` set (rangedCIDRs e s) = desiredUnion s"
  by (auto simp: rangedCIDRs_def rangeCIDRSets_def desiredUnion_def)

lemma set_rangedKeys [simp]: "set (rangedKeys e s) = set (table s)"
  by (simp add: rangedKeys_def rangeWorldCIDRs_def)

lemma addMissing_cidrSets [simp]: "cidrSets (addMissingCIDRs e s) = cidrSets s"
  by (simp add: addMissing_unfold)

lemma removeUnused_cidrSets [simp]: "cidrSets (removeUnusedCIDRs e s) = cidrSets s"
  by (simp add: removeUnused_unfold)

lemma iterate_prefix: "prefix (calls s) (calls (tick (snd (IterateWithCallback s))))"
  by simp

lemma addMissing_prefix: "prefix (calls s) (calls (addMissingCIDRs e s))"
  unfolding addMissing_unfold
  by (rule prefix_order.trans [OF iterate_prefix addLoop_prefix])

lemma removeUnused_prefix: "prefix (calls s) (calls (removeUnusedCIDRs e s))"
  unfolding removeUnused_unfold
  by (rule prefix_order.trans [OF iterate_prefix removeLoop_prefix])

lemma map_fst_issued:
  "map fst (calls s') = map fst (calls s) @ cs \<Longrightarrow> map fst (issued s s') = cs"
  by (metis issued_def append_eq_conv_conj drop_map length_map)

lemma addMissing_calls:
  "map fst (issued s (addMissingCIDRs e s)) =
     Iterate # map Add (filter (\<lambda>c. NewWorldCIDRKey4 c \<notin> set (table s)) (rangedCIDRs e s))"
  by (rule map_fst_issued) (simp add: addMissing_unfold addLoop_calls)

lemma removeUnused_calls:
  "map fst (issued s (removeUnusedCIDRs e s)) =
     Iterate # map (\<lambda>k. Delete (GetCIDR k)) (filter (\<lambda>k. \<not> matchesAny s k) (rangedKeys e s))"
proof -
  have "matchesAny (tick (snd (IterateWithCallback s))) = matchesAny s"
    by (rule ext) (simp add: matchesAny_cong [of "tick (snd (IterateWithCallback s))" s])
  then show ?thesis
    by (intro map_fst_issued) (simp add: removeUnused_unfold removeLoop_calls)
qed

lemma addMissing_keeps:
  "d \<in> set (table s) \<Longrightarrow> normKey d = d \<Longrightarrow> d \<in> set (table (addMissingCIDRs e s))"
  by (simp add: addMissing_unfold addLoop_keeps)

lemma addMissing_table_subset:
  "set (table (addMissingCIDRs e s)) \<subseteq> set (table s) \<union> desiredUnion s"
  using addLoop_table_subset [of e "remdups (table s)" "rangedCIDRs e s" "tick (snd (IterateWithCallback s))"]
  by (simp add: addMissing_unfold set_rangedCIDRs)

lemma addMissing_adds:
  assumes "allSucceeded s (addMissingCIDRs e s)"
  shows "desiredUnion s \<subseteq> set (table (addMissingCIDRs e s))"
proof
  fix d assume "d \<in> desiredUnion s"
  then obtain c where c: "c \<in> set (rangedCIDRs e s)" and d: "d = NewWorldCIDRKey4 c"
    using set_rangedCIDRs [of e s] by auto
  let ?s1 = "tick (snd (IterateWithCallback s))"
  have ok: "allSucceeded ?s1 (fold (addCIDR e (remdups (table s))) (rangedCIDRs e s) ?s1)"
    using assms allSucceeded_append [OF iterate_prefix addLoop_prefix, of s e "remdups (table s)" "rangedCIDRs e s"]
    by (simp add: addMissing_unfold)
  show "d \<in> set (table (addMissingCIDRs e s))"
  proof (cases "d \<in> set (table s)")
    case True
    then show ?thesis using d by (simp add: addMissing_keeps)
  next
    case False
    then show ?thesis
      using addLoop_adds [OF ok c] d by (simp add: addMissing_unfold)
  qed
qed

lemma removeUnused_table_subset: "set (table (removeUnusedCIDRs e s)) \<subseteq> set (table s)"
  using removeLoop_table_subset [of e "rangedKeys e s" "tick (snd (IterateWithCallback s))"]
  by (simp add: removeUnused_unfold)

lemma removeUnused_keeps:
  "d \<in> set (table s) \<Longrightarrow> normKey d \<in> desiredUnion s \<Longrightarrow> d \<in> set (table (removeUnusedCIDRs e s))"
  using removeLoop_keeps [of d "tick (snd (IterateWithCallback s))" e "rangedKeys e s"]
  by (simp add: removeUnused_unfold desiredUnion_cong [of "tick (snd (IterateWithCallback s))" s])

lemma removeUnused_removes:
  assumes "allSucceeded s (removeUnusedCIDRs e s)" and "k \<in> set (table (removeUnusedCIDRs e s))"
  shows "normKey k \<in> desiredUnion s"
proof (rule ccontr)
  assume no: "normKey k \<notin> desiredUnion s"
  let ?s1 = "tick (snd (IterateWithCallback s))"
  have ok: "allSucceeded ?s1 (fold (removeCIDR e) (rangedKeys e s) ?s1)"
    using assms(1) allSucceeded_append [OF iterate_prefix removeLoop_prefix, of s e "rangedKeys e s"]
    by (simp add: removeUnused_unfold)
  have k: "k \<in> set (rangedKeys e s)"
    using assms(2) removeUnused_table_subset [of e s] by auto
  have "\<not> matchesAny ?s1 k"
    using no by (simp add: matchesAny_iff desiredUnion_cong [of ?s1 s])
  from removeLoop_removes [OF ok k this] assms(2) show False
    by (simp add: removeUnused_unfold)
qed

lemma reconcile_notReady: "\<not> K8sCacheIsSynced e (clock s) \<Longrightarrow> reconcile e s = tick s"
  by (simp add: reconcile_def)

lemma reconcile_ready:
  "K8sCacheIsSynced e (clock s) \<Longrightarrow>
     reconcile e s = removeUnusedCIDRs e (addMissingCIDRs e (tick s))"
  by (simp add: reconcile_def)

lemma reconcile_cidrSets [simp]: "cidrSets (reconcile e s) = cidrSets s"
  by (simp add: reconcile_def Let_def)

lemma issued_tick [simp]: "issued (tick s) s' = issued s s'"
  by (simp add: issued_def)

lemma allSucceeded_tick [simp]: "allSucceeded (tick s) s' = allSucceeded s s'"
  by (simp add: allSucceeded_def)

lemma desiredUnion_tick [simp]: "desiredUnion (tick s) = desiredUnion s"
  by (simp add: desiredUnion_def)

lemma reconcile_issued:
  assumes "K8sCacheIsSynced e (clock s)"
  shows "issued s (reconcile e s) =
           issued s (addMissingCIDRs e (tick s)) @
           issued (addMissingCIDRs e (tick s)) (removeUnusedCIDRs e (addMissingCIDRs e (tick s)))"
  using issued_append [OF addMissing_prefix removeUnused_prefix, of "tick s" e e] assms
  by (simp add: reconcile_ready)

lemma desiredUnion_norm: "d \<in> desiredUnion s \<Longrightarrow> normKey d = d"
  by (auto simp: desiredUnion_def)

lemma delete_absent: "DAList.lookup al i = None \<Longrightarrow> DAList.delete i al = al"
  by (simp add: alist_eq_iff DAList.delete.rep_eq DAList.lookup.rep_eq map_of_eq_None_iff delete_notin_dom)

lemma reconcile_converges:
  assumes ready: "K8sCacheIsSynced e (clock s)" and ok: "allSucceeded s (reconcile e s)"
  shows "desiredUnion s \<subseteq> set (table (reconcile e s))"
    and "\<forall>k \<in> set (table (reconcile e s)). normKey k \<in> desiredUnion s"
proof -
  let ?s1 = "addMissingCIDRs e (tick s)"
  let ?s2 = "removeUnusedCIDRs e ?s1"
  have r: "reconcile e s = ?s2" using ready by (rule reconcile_ready)
  have ok1: "allSucceeded s ?s1" and ok2: "allSucceeded ?s1 ?s2"
    using ok reconcile_issued [OF ready] by (simp_all add: r allSucceeded_def)
  have d1: "desiredUnion ?s1 = desiredUnion s"
    by (simp add: desiredUnion_cong [of ?s1 s])
  have "desiredUnion s \<subseteq> set (table ?s1)"
    using addMissing_adds [of "tick s" e] ok1 by simp
  then show "desiredUnion s \<subseteq> set (table (reconcile e s))"
    unfolding r using removeUnused_keeps [of _ ?s1 e] d1 desiredUnion_norm [of _ s]
    by (metis subsetD subsetI)
  show "\<forall>k \<in> set (table (reconcile e s)). normKey k \<in> desiredUnion s"
    unfolding r using removeUnused_removes [OF ok2] d1 by simp
qed

subsection \<open>Kinds of calls in the two phases\<close>

lemma isAdd_iff: "isAdd c \<longleftrightarrow> (\<exists>cidr. fst c = Add cidr)"
  by (cases c, cases "fst c") (auto simp: isAdd_def)

lemma isDelete_iff: "isDelete c \<longleftrightarrow> (\<exists>cidr. fst c = Delete cidr)"
  by (cases c, cases "fst c") (auto simp: isDelete_def)

lemma addMissing_no_delete: "c \<in> set (issued s (addMissingCIDRs e s)) \<Longrightarrow> \<not> isDelete c"
proof
  assume c: "c \<in> set (issued s (addMissingCIDRs e s))" and "isDelete c"
  then obtain cidr where "fst c = Delete cidr" by (auto simp: isDelete_iff)
  with c have "Delete cidr \<in> set (map fst (issued s (addMissingCIDRs e s)))" by force
  then show False unfolding addMissing_calls by auto
qed

lemma removeUnused_no_add: "c \<in> set (issued s (removeUnusedCIDRs e s)) \<Longrightarrow> \<not> isAdd c"
proof
  assume c: "c \<in> set (issued s (removeUnusedCIDRs e s))" and "isAdd c"
  then obtain cidr where "fst c = Add cidr" by (auto simp: isAdd_iff)
  with c have "Add cidr \<in> set (map fst (issued s (removeUnusedCIDRs e s)))" by force
  then show False unfolding removeUnused_calls by auto
qed

lemma reconcile_issued_notReady:
  "\<not> K8sCacheIsSynced e (clock s) \<Longrightarrow> issued s (reconcile e s) = []"
  by (simp add: reconcile_notReady issued_def)

subsection \<open>A pass on a converged table\<close>

lemma only_iterates:
  assumes "map fst cs = [Iterate]"
  shows "filter isAdd cs = [] \<and> filter isDelete cs = []"
proof -
  from assms obtain r where "cs = [(Iterate, r)]" by (cases cs) auto
  then show ?thesis by (simp add: isAdd_def isDelete_def)
qed

lemma converged_pass_quiet:
  assumes sub: "desiredUnion s \<subseteq> set (table s)"
    and backed: "\<forall>k \<in> set (table s). normKey k \<in> desiredUnion s"
  shows "filter isAdd (issued s (reconcile e s)) = [] \<and>
         filter isDelete (issued s (reconcile e s)) = []"
proof (cases "K8sCacheIsSynced e (clock s)")
  case False
  then show ?thesis by (simp add: reconcile_issued_notReady)
next
  case True
  let ?s1 = "addMissingCIDRs e (tick s)"
  have "filter (\<lambda>c. NewWorldCIDRKey4 c \<notin> set (table (tick s))) (rangedCIDRs e (tick s)) = []"
    using sub set_rangedCIDRs [of e "tick s"] by (auto simp: filter_empty_conv)
  then have a: "map fst (issued s ?s1) = [Iterate]"
    using addMissing_calls [of "tick s" e] by simp
  have "set (table ?s1) \<subseteq> set (table s)"
    using addMissing_table_subset [of e "tick s"] sub by auto
  then have "filter (\<lambda>k. \<not> matchesAny ?s1 k) (rangedKeys e ?s1) = []"
    using backed by (auto simp: filter_empty_conv matchesAny_iff desiredUnion_cong [of ?s1 s])
  then have b: "map fst (issued ?s1 (removeUnusedCIDRs e ?s1)) = [Iterate]"
    using removeUnused_calls [of ?s1 e] by simp
  show ?thesis
    using only_iterates [OF a] only_iterates [OF b] by (simp add: reconcile_issued [OF True])
qed

subsection \<open>Event handlers\<close>

lemma OnAdd_cidrSets [simp]:
  "cidrSets (OnAddWorldCIDRSet e cidrSet s) = DAList.update (id' cidrSet) cidrSet (cidrSets s)"
  by (simp add: OnAddWorldCIDRSet_def Let_def)

lemma OnDelete_cidrSets [simp]:
  "cidrSets (OnDeleteWorldCIDRSet e i s) = DAList.delete i (cidrSets s)"
  by (simp add: OnDeleteWorldCIDRSet_def Let_def delete_absent)

lemma handleEvent_cidrSets: "cidrSets (handleEvent e ev s) = specStoreAfter ev (cidrSets s)"
  by (cases ev) (simp_all add: handleEvent_def specStoreAfter_def)

lemma handleEvents_cidrSets:
  "cidrSets (handleEvents e evs s) = fold specStoreAfter evs (cidrSets s)"
  unfolding handleEvents_def
  by (induction evs arbitrary: s) (simp_all add: handleEvent_cidrSets)

lemma handleEvent_notReady:
  assumes "\<not> K8sCacheIsSynced e (clock s)"
  shows "calls (handleEvent e ev s) = calls s" and "table (handleEvent e ev s) = table s"
    and "clock s \<le> clock (handleEvent e ev s)"
  using assms
  by (cases ev; simp add: handleEvent_def OnAddWorldCIDRSet_def OnDeleteWorldCIDRSet_def
        Let_def reconcile_notReady)+

lemma handleEvents_notReady:
  assumes "\<forall>n \<ge> clock s. \<not> K8sCacheIsSynced e n"
  shows "calls (handleEvents e evs s) = calls s \<and> table (handleEvents e evs s) = table s"
  using assms unfolding handleEvents_def
proof (induction evs arbitrary: s)
  case Nil
  show ?case by simp
next
  case (Cons ev evs)
  from Cons.prems have now: "\<not> K8sCacheIsSynced e (clock s)" by simp
  note step = handleEvent_notReady [OF now, of ev]
  have "\<forall>n \<ge> clock (handleEvent e ev s). \<not> K8sCacheIsSynced e n"
    using Cons.prems step(3) by auto
  from Cons.IH [OF this] step(1,2) show ?case by simp
qed

subsection \<open>The goroutine of the sync gate\<close>

lemma waitForK8sSync_Some:
  assumes "waitForK8sSync e s = Some s1"
  shows "\<exists>n \<ge> clock s. K8sCacheIsSynced e n \<and> s1 = s\<lparr>clock := Suc n\<rparr>"
proof (rule waitForK8sSync.raw_induct
    [where P = "\<lambda>e s s1. \<exists>n \<ge> clock s. K8sCacheIsSynced e n \<and> s1 = s\<lparr>clock := Suc n\<rparr>",
      OF _ assms])
  fix wait :: "env \<Rightarrow> state \<Rightarrow> state option" and e s s1
  assume IH: "\<And>a b y. wait a b = Some y \<Longrightarrow>
                \<exists>n \<ge> clock b. K8sCacheIsSynced a n \<and> y = b\<lparr>clock := Suc n\<rparr>"
    and eq: "(if K8sCacheIsSynced e (clock s) then Some (tick s) else wait e (tick s)) = Some s1"
  show "\<exists>n \<ge> clock s. K8sCacheIsSynced e n \<and> s1 = s\<lparr>clock := Suc n\<rparr>"
  proof (cases "K8sCacheIsSynced e (clock s)")
    case True
    with eq have "s1 = s\<lparr>clock := Suc (clock s)\<rparr>" by (simp add: tick_def)
    with True show ?thesis by blast
  next
    case False
    with eq have "wait e (tick s) = Some s1" by simp
    from IH [OF this] obtain n where "n \<ge> Suc (clock s)" "K8sCacheIsSynced e n"
      "s1 = (tick s)\<lparr>clock := Suc n\<rparr>" by auto
    then show ?thesis by (intro exI [of _ n]) (simp add: tick_def)
  qed
qed

lemma waitForK8sSync_returns:
  "K8sCacheIsSynced e (clock s + d) \<Longrightarrow> \<exists>s1. waitForK8sSync e s = Some s1"
proof (induction d arbitrary: s)
  case 0
  then show ?case by (subst waitForK8sSync.simps) simp
next
  case (Suc d)
  then have "\<exists>s1. waitForK8sSync e (tick s) = Some s1" by simp
  then show ?case by (subst waitForK8sSync.simps) simp
qed

lemma reconcile_noop_iff: "(reconcile e s = tick s) = (\<not> K8sCacheIsSynced e (clock s))"
proof
  assume eq: "reconcile e s = tick s"
  show "\<not> K8sCacheIsSynced e (clock s)"
  proof
    assume ready: "K8sCacheIsSynced e (clock s)"
    have "map fst (issued s (addMissingCIDRs e (tick s))) \<noteq> []"
      using addMissing_calls [of "tick s" e] by simp
    then have "issued s (reconcile e s) \<noteq> []"
      by (auto simp: reconcile_issued [OF ready])
    with eq show False by (simp add: issued_def)
  qed
next
  assume "\<not> K8sCacheIsSynced e (clock s)"
  then show "reconcile e s = tick s" by (rule reconcile_notReady)
qed

subsection \<open>The store after an update\<close>

lemma set_AList_update:
  "distinct (map fst xs) \<Longrightarrow>
     set (AList.update k v xs) = insert (k, v) {p \<in> set xs. fst p \<noteq> k}"
  by (induction xs) (auto simp: rev_image_eqI)

lemma set_AList_delete: "set (AList.delete k xs) = {p \<in> set xs. fst p \<noteq> k}"
  by (auto simp: AList.delete_eq)

lemma desiredUnion_update:
  assumes "cidrSets s' = DAList.update i cidrSet (cidrSets s)"
  shows "desiredUnion s' =
           NewWorldCIDRKey4 ` set (cidrs cidrSet) \<union>
           desiredUnion (s\<lparr>cidrSets := DAList.delete i (cidrSets s)\<rparr>)"
  by (simp add: desiredUnion_def assms DAList.update.rep_eq DAList.delete.rep_eq
        set_AList_update set_AList_delete)

subsection \<open>The log follows the calls\<close>

lemma tracked_refl [simp]: "tracked s s"
  by (simp add: tracked_def)

lemma tracked_trans:
  assumes "tracked s s'" and "tracked s' s''"
  shows "tracked s s''"
proof -
  from assms have p: "prefix (calls s) (calls s')" "prefix (calls s') (calls s'')"
    by (simp_all add: tracked_def)
  then have "prefix (calls s) (calls s'')" by (rule prefix_order.trans)
  moreover have "logs s'' = logs s @ concat (map logOfCall (issued s s''))"
    using assms by (simp add: tracked_def issued_append [OF p])
  ultimately show ?thesis by (simp add: tracked_def)
qed

lemma tracked_fold:
  assumes "\<And>x s. tracked s (f x s)"
  shows "tracked s (fold f xs s)"
proof (induction xs arbitrary: s)
  case Nil
  show ?case by simp
next
  case (Cons x xs)
  have "tracked s (f x s)" by (rule assms)
  moreover have "tracked (f x s) (fold f xs (f x s))" by (rule Cons.IH)
  ultimately show ?case using tracked_trans by simp
qed

lemma addCIDR_tracked: "tracked s (addCIDR e w c s)"
  by (simp add: tracked_def issued_def addCIDR_calls addCIDR_logs ioResult_def)

lemma removeCIDR_tracked: "tracked s (removeCIDR e k s)"
  by (cases "deleteResult e k s")
    (simp_all add: tracked_def issued_def removeCIDR_calls removeCIDR_logs)

lemma iterate_tracked: "tracked s (tick (snd (IterateWithCallback s)))"
  by (simp add: tracked_def issued_def)

lemma addMissing_tracked: "tracked s (addMissingCIDRs e s)"
  unfolding addMissing_unfold
  by (rule tracked_trans [OF iterate_tracked tracked_fold]) (rule addCIDR_tracked)

lemma removeUnused_tracked: "tracked s (removeUnusedCIDRs e s)"
  unfolding removeUnused_unfold
  by (rule tracked_trans [OF iterate_tracked tracked_fold]) (rule removeCIDR_tracked)

lemma tick_tracked: "tracked s (tick s)"
  by (simp add: tracked_def issued_def)

lemma reconcile_tracked: "tracked s (reconcile e s)"
proof (cases "K8sCacheIsSynced e (clock s)")
  case True
  have "tracked s (removeUnusedCIDRs e (addMissingCIDRs e (tick s)))"
    by (rule tracked_trans [OF tick_tracked tracked_trans [OF addMissing_tracked removeUnused_tracked]])
  with True show ?thesis by (simp add: reconcile_ready)
next
  case False
  then show ?thesis by (simp add: reconcile_notReady tick_tracked)
qed

lemma tracked_logged: "tracked s s' \<Longrightarrow> logged s s' = concat (map logOfCall (issued s s'))"
  by (simp add: tracked_def logged_def)

lemma reconcile_calls:
  assumes "K8sCacheIsSynced e (clock s)"
  shows "map fst (issued s (reconcile e s)) =
           Iterate #
           map Add (filter (\<lambda>c. NewWorldCIDRKey4 c \<notin> set (table s)) (rangedCIDRs e (tick s))) @
           Iterate #
           map (\<lambda>k. Delete (GetCIDR k))
             (filter (\<lambda>k. normKey k \<notin> desiredUnion s) (rangedKeys e (addMissingCIDRs e (tick s))))"
proof -
  let ?s1 = "addMissingCIDRs e (tick s)"
  have "(\<lambda>k. \<not> matchesAny ?s1 k) = (\<lambda>k. normKey k \<notin> desiredUnion s)"
    by (rule ext) (simp add: matchesAny_iff desiredUnion_cong [of ?s1 s])
  then show ?thesis
    using addMissing_calls [of "tick s" e] removeUnused_calls [of ?s1 e]
    by (simp add: reconcile_issued [OF assms])
qed

lemma map_fst_filter_isAdd:
  "map fst (filter isAdd cs) = filter (\<lambda>c. \<exists>cidr. c = Add cidr) (map fst cs)"
  by (induction cs) (auto simp: isAdd_iff)

lemma reconcile_add_calls:
  assumes "K8sCacheIsSynced e (clock s)"
  shows "map fst (filter isAdd (issued s (reconcile e s))) =
           map Add (filter (\<lambda>c. NewWorldCIDRKey4 c \<notin> set (table s)) (rangedCIDRs e (tick s)))"
proof -
  have a: "filter (\<lambda>c. \<exists>cidr. c = Add cidr) (map Add xs) = map Add xs" for xs
    by (induction xs) auto
  have b: "filter (\<lambda>c. \<exists>cidr. c = Add cidr) (map (\<lambda>k. Delete (GetCIDR k)) ks) = []" for ks
    by (induction ks) auto
  show ?thesis
    by (simp add: map_fst_filter_isAdd reconcile_calls [OF assms] a b)
qed

lemma rangedCIDRs_ioFails [simp]: "rangedCIDRs (e\<lparr>ioFails := f\<rparr>) s = rangedCIDRs e s"
  by (simp add: rangedCIDRs_def rangeCIDRSets_def)

lemma gate_cidrSets:
  assumes "runReconciliationAfterK8sSync e s = Some s'"
  shows "cidrSets s' = cidrSets s"
proof -
  from assms obtain s1 where w: "waitForK8sSync e s = Some s1" and r: "s' = reconcile e s1"
    by (auto simp: runReconciliationAfterK8sSync_def split: option.splits)
  from waitForK8sSync_Some [OF w] obtain n where "s1 = s\<lparr>clock := Suc n\<rparr>" by blast
  with r show ?thesis by simp
qed

subsection \<open>The calls of a pass, whatever the order of the ranges\<close>

lemma mset_concat_map_perm:
  "mset ys = mset xs \<Longrightarrow> mset (concat (map g ys)) = mset (concat (map g xs))"
proof -
  assume eq: "mset ys = mset xs"
  have "mset (concat (map g zs)) = sum_mset (image_mset (\<lambda>z. mset (g z)) (mset zs))" for zs
    by (induction zs) simp_all
  then show ?thesis using eq by simp
qed

lemma mset_rangedCIDRs: "mset (rangedCIDRs e s) = mset (listedCIDRs s)"
proof -
  let ?xs = "DAList.impl_of (cidrSets s)"
  let ?ys = "sort_key (\<lambda>p. rankSets e (clock s) (fst p)) ?xs"
  have "rangedCIDRs e s = concat (map (\<lambda>p. cidrs (snd p)) ?ys)"
    by (simp add: rangedCIDRs_def rangeCIDRSets_def comp_def)
  moreover have "mset ?ys = mset ?xs" by simp
  ultimately show ?thesis
    using mset_concat_map_perm [of ?ys ?xs "\<lambda>p. cidrs (snd p)"] by (simp add: listedCIDRs_def)
qed

lemma mset_rangedKeys: "mset (rangedKeys e s) = mset (remdups (table s))"
  by (simp add: rangedKeys_def rangeWorldCIDRs_def)

lemma listedCIDRs_tick [simp]: "listedCIDRs (tick s) = listedCIDRs s"
  by (simp add: listedCIDRs_def)

lemma reconcile_calls_listed:
  assumes "K8sCacheIsSynced e (clock s)"
  shows "\<exists>adds dels.
           map fst (issued s (reconcile e s)) = Iterate # map Add adds @ Iterate # map Delete dels \<and>
           mset adds = mset (filter (\<lambda>c. NewWorldCIDRKey4 c \<notin> set (table s)) (listedCIDRs s)) \<and>
           mset dels = mset (map GetCIDR (filter (\<lambda>k. normKey k \<notin> desiredUnion s)
                                (remdups (table (addMissingCIDRs e (tick s))))))"
proof -
  let ?s1 = "addMissingCIDRs e (tick s)"
  let ?adds = "filter (\<lambda>c. NewWorldCIDRKey4 c \<notin> set (table s)) (rangedCIDRs e (tick s))"
  let ?dels = "map GetCIDR (filter (\<lambda>k. normKey k \<notin> desiredUnion s) (rangedKeys e ?s1))"
  have a: "map fst (issued s (reconcile e s)) = Iterate # map Add ?adds @ Iterate # map Delete ?dels"
    using reconcile_calls [OF assms] by (simp add: comp_def)
  have b: "mset ?adds = mset (filter (\<lambda>c. NewWorldCIDRKey4 c \<notin> set (table s)) (listedCIDRs s))"
    using mset_rangedCIDRs [of e "tick s"] by (simp add: mset_filter)
  have c: "mset ?dels = mset (map GetCIDR (filter (\<lambda>k. normKey k \<notin> desiredUnion s)
                                (remdups (table ?s1))))"
    using mset_rangedKeys [of e ?s1] by (simp add: mset_filter)
  from a b c show ?thesis by (intro exI [of _ ?adds] exI [of _ ?dels] conjI)
qed

subsection \<open>The scenario of the spec\<close>

text \<open>
  "Set A={10.0.0.0/8} added: table={10.0.0.0/8}. Set B={10.0.0.0/8,192.168.0.0/16} added:
  table={10.0.0.0/8,192.168.0.0/16}. Delete A: table unchanged. Delete B: table becomes
  empty."
\<close>

lemma spec_scenario:
  "table (handleEvents envReady [AddOrUpdate setA] (NewWorldCIDRsManager [])) =
     [NewWorldCIDRKey4 net10] \<and>
   table (handleEvents envReady [AddOrUpdate setA, AddOrUpdate setB] (NewWorldCIDRsManager [])) =
     [NewWorldCIDRKey4 net10, NewWorldCIDRKey4 net192] \<and>
   table (handleEvents envReady [AddOrUpdate setA, AddOrUpdate setB, DeleteEvent idA]
            (NewWorldCIDRsManager [])) =
     [NewWorldCIDRKey4 net10, NewWorldCIDRKey4 net192] \<and>
   table (handleEvents envReady [AddOrUpdate setA, AddOrUpdate setB, DeleteEvent idA, DeleteEvent idB]
            (NewWorldCIDRsManager [])) = []"
  by code_simp

section \<open>The claims\<close>

text \<open>
  C1. Convergence. In every state (every store, every table), when \<open>reconcile\<close> runs
  while the oracle answers synced and every adapter call that it issues returns no error,
  the normalized prefixes of the table's entries are afterwards exactly the union of the
  normalized prefixes of all CIDR sets of the store. When moreover the table held
  normalized keys only, its keys themselves are that union.
\<close>

theorem reconcile_convergence:
  assumes "K8sCacheIsSynced e (clock s)" and "allSucceeded s (reconcile e s)"
  shows "tablePrefixes (reconcile e s) = desiredUnion s \<and>
         ((\<forall>k \<in> set (table s). normKey k = k) \<longrightarrow> set (table (reconcile e s)) = desiredUnion s)"
proof -
  note conv = reconcile_converges [OF assms]
  have eq: "tablePrefixes (reconcile e s) = desiredUnion s"
  proof
    show "tablePrefixes (reconcile e s) \<subseteq> desiredUnion s"
      using conv(2) by (auto simp: tablePrefixes_def)
    show "desiredUnion s \<subseteq> tablePrefixes (reconcile e s)"
    proof
      fix d assume d: "d \<in> desiredUnion s"
      then have "d \<in> set (table (reconcile e s))" using conv(1) by auto
      then have "normKey d \<in> tablePrefixes (reconcile e s)" by (simp add: tablePrefixes_def)
      then show "d \<in> tablePrefixes (reconcile e s)" using desiredUnion_norm [OF d] by simp
    qed
  qed
  have "set (table (reconcile e s)) = desiredUnion s" if wf: "\<forall>k \<in> set (table s). normKey k = k"
  proof
    show "desiredUnion s \<subseteq> set (table (reconcile e s))" by (rule conv(1))
    show "set (table (reconcile e s)) \<subseteq> desiredUnion s"
    proof
      fix k assume k: "k \<in> set (table (reconcile e s))"
      then have "k \<in> set (table (addMissingCIDRs e (tick s)))"
        using removeUnused_table_subset [of e "addMissingCIDRs e (tick s)"] assms(1)
        by (auto simp: reconcile_ready)
      then have "k \<in> set (table s) \<union> desiredUnion s"
        using addMissing_table_subset [of e "tick s"] by auto
      then have "normKey k = k" using wf desiredUnion_norm [of k s] by auto
      then show "k \<in> desiredUnion s" using conv(2) k by auto
    qed
  qed
  with eq show ?thesis by simp
qed

theorem reconcile_convergence_witness:
  "K8sCacheIsSynced envReady (clock stateAB) \<and> allSucceeded stateAB (reconcile envReady stateAB) \<and>
   map normKey (table stateAB) = table stateAB \<and>
   tablePrefixes (reconcile envReady stateAB) = desiredUnion stateAB \<and>
   set (table (reconcile envReady stateAB)) = desiredUnion stateAB"
proof -
  have h1: "K8sCacheIsSynced envReady (clock stateAB)" by (simp add: envReady_def)
  have h2: "allSucceeded stateAB (reconcile envReady stateAB)" by code_simp
  have h3: "map normKey (table stateAB) = table stateAB" by code_simp
  then have h4: "\<forall>k \<in> set (table stateAB). normKey k = k" by (simp add: map_idI [symmetric] map_eq_conv [symmetric] del: map_eq_conv)
  show ?thesis using h1 h2 h3 h4 reconcile_convergence [OF h1 h2] by simp
qed

text \<open>
  C2. Phase ordering. Among the adapter calls that one invocation of \<open>reconcile\<close>
  issues, every \<open>Add\<close> comes before every \<open>Delete\<close>: in every state, so also when a
  desired prefix is missing and a stale entry is present at once.
\<close>

theorem reconcile_adds_before_deletes:
  assumes "i < length (issued s (reconcile e s))" and "j < length (issued s (reconcile e s))"
    and "isAdd (issued s (reconcile e s) ! i)" and "isDelete (issued s (reconcile e s) ! j)"
  shows "i < j"
proof (cases "K8sCacheIsSynced e (clock s)")
  case False
  with assms(1) show ?thesis by (simp add: reconcile_issued_notReady)
next
  case True
  let ?A = "issued s (addMissingCIDRs e (tick s))"
  let ?B = "issued (addMissingCIDRs e (tick s)) (removeUnusedCIDRs e (addMissingCIDRs e (tick s)))"
  have eq: "issued s (reconcile e s) = ?A @ ?B" by (rule reconcile_issued [OF True])
  have i: "i < length ?A"
  proof (rule ccontr)
    assume "\<not> i < length ?A"
    then have "(?A @ ?B) ! i = ?B ! (i - length ?A)" "i - length ?A < length ?B"
      using assms(1) by (simp_all add: eq nth_append)
    then have "(?A @ ?B) ! i \<in> set ?B" by (metis nth_mem)
    then show False using removeUnused_no_add assms(3) by (simp add: eq)
  qed
  have j: "\<not> j < length ?A"
  proof
    assume "j < length ?A"
    then have "(?A @ ?B) ! j \<in> set ?A" by (simp add: nth_append)
    then show False
      using addMissing_no_delete [of "(?A @ ?B) ! j" "tick s" e] assms(4) by (simp add: eq)
  qed
  from i j show ?thesis by simp
qed

theorem reconcile_adds_before_deletes_witness:
  "1 < length (issued stateAB (reconcile envReady stateAB)) \<and>
   5 < length (issued stateAB (reconcile envReady stateAB)) \<and>
   isAdd (issued stateAB (reconcile envReady stateAB) ! 1) \<and>
   isDelete (issued stateAB (reconcile envReady stateAB) ! 5) \<and> (1::nat) < 5"
proof -
  have h1: "1 < length (issued stateAB (reconcile envReady stateAB))" by code_simp
  have h2: "5 < length (issued stateAB (reconcile envReady stateAB))" by code_simp
  have h3: "isAdd (issued stateAB (reconcile envReady stateAB) ! 1)" by code_simp
  have h4: "isDelete (issued stateAB (reconcile envReady stateAB) ! 5)" by code_simp
  show ?thesis using h1 h2 h3 h4 reconcile_adds_before_deletes [OF h1 h2 h3 h4] by simp
qed

text \<open>
  C3, as the code has it. Idempotence holds of an invocation that did its work. Let
  \<open>reconcile\<close> be invoked with every adapter call that it issues returning no error,
  and then again in any state with the same store and the same table. Unless the first
  invocation was a not-ready no-op and the second runs while the oracle answers synced,
  the second invocation issues no \<open>Add\<close> and no \<open>Delete\<close>, whichever order its ranges
  take.
\<close>

theorem reconcile_idempotent:
  assumes "K8sCacheIsSynced e (clock s) \<or> \<not> K8sCacheIsSynced e2 (clock s2)"
    and "allSucceeded s (reconcile e s)"
    and "cidrSets s2 = cidrSets (reconcile e s)" and "table s2 = table (reconcile e s)"
  shows "filter isAdd (issued s2 (reconcile e2 s2)) = [] \<and>
         filter isDelete (issued s2 (reconcile e2 s2)) = []"
proof (cases "K8sCacheIsSynced e2 (clock s2)")
  case False
  then show ?thesis by (simp add: reconcile_issued_notReady)
next
  case True
  with assms(1) have ready: "K8sCacheIsSynced e (clock s)" by simp
  note conv = reconcile_converges [OF ready assms(2)]
  have d: "desiredUnion s2 = desiredUnion s"
    using assms(3) by (simp add: desiredUnion_cong [of s2 s])
  show ?thesis
    by (rule converged_pass_quiet) (use conv d assms(4) in simp_all)
qed

theorem reconcile_idempotent_witness:
  "K8sCacheIsSynced envReady (clock stateAB) \<and> allSucceeded stateAB (reconcile envReady stateAB) \<and>
   filter isAdd (issued (reconcile envReady stateAB)
                   (reconcile envReady (reconcile envReady stateAB))) = [] \<and>
   filter isDelete (issued (reconcile envReady stateAB)
                      (reconcile envReady (reconcile envReady stateAB))) = []"
proof -
  have h1: "K8sCacheIsSynced envReady (clock stateAB)" by (simp add: envReady_def)
  have h2: "allSucceeded stateAB (reconcile envReady stateAB)" by code_simp
  show ?thesis
    using h1 h2 reconcile_idempotent [OF disjI1 [OF h1] h2 refl refl, of envReady] by simp
qed

text \<open>
  C3, as the spec states it, fails. Under \<open>envLate\<close> the first invocation of
  \<open>reconcile\<close> is told not synced and returns at once: it issues no call, so none of its
  calls failed, and store and table are as before. The second invocation, with no store
  mutation in between, is told synced and issues three \<open>Add\<close> calls and a \<open>Delete\<close>.
  This is a handler called before the sync followed by the pass of the sync gate.
\<close>

theorem reconcile_twice_counterexample:
  "issued stateAB (reconcile envLate stateAB) = [] \<and>
   allSucceeded stateAB (reconcile envLate stateAB) \<and>
   cidrSets (reconcile envLate stateAB) = cidrSets stateAB \<and>
   table (reconcile envLate stateAB) = table stateAB \<and>
   issued (reconcile envLate stateAB) (reconcile envLate (reconcile envLate stateAB)) =
     [(Iterate, None), (Add net10, None), (Add net10, None), (Add net192, None),
      (Iterate, None), (Delete net10_1, None)]"
  by code_simp

text \<open>
  C4. Before readiness. While the oracle answers not synced, handling any sequence of
  add/update and delete events issues no adapter call (no \<open>Iterate\<close>, no \<open>Add\<close>, no
  \<open>Delete\<close>) and leaves the table as it was; the store after the events is the one the
  spec's store gives, and it is the store that the same events produce under any other
  environment, a synced one included.
\<close>

theorem events_before_readiness:
  assumes "\<forall>n \<ge> clock s. \<not> K8sCacheIsSynced e n"
  shows "calls (handleEvents e evs s) = calls s \<and>
         table (handleEvents e evs s) = table s \<and>
         cidrSets (handleEvents e evs s) = fold specStoreAfter evs (cidrSets s) \<and>
         (\<forall>e2 s2. cidrSets s2 = cidrSets s \<longrightarrow>
            cidrSets (handleEvents e2 evs s2) = cidrSets (handleEvents e evs s))"
  using handleEvents_notReady [OF assms, of evs]
  by (simp add: handleEvents_cidrSets)

theorem events_before_readiness_witness:
  "calls (handleEvents envNotReady someEvents stateStale) = calls stateStale \<and>
   table (handleEvents envNotReady someEvents stateStale) = table stateStale \<and>
   cidrSets (handleEvents envReady someEvents stateStale) =
     cidrSets (handleEvents envNotReady someEvents stateStale) \<and>
   calls (handleEvents envReady someEvents stateStale) \<noteq> calls stateStale"
proof -
  have h: "\<forall>n \<ge> clock stateStale. \<not> K8sCacheIsSynced envNotReady n"
    by (simp add: envNotReady_def envReady_def)
  have r: "calls (handleEvents envReady someEvents stateStale) \<noteq> calls stateStale"
    by code_simp
  show ?thesis using events_before_readiness [OF h, of someEvents] r by simp
qed

text \<open>
  C5, as the code has it. There is no readiness flag: \<open>reconcile\<close> asks the oracle at
  every invocation and is a not-ready no-op exactly when the answer at that invocation
  is not synced. So a reconciliation invoked after the first positive observation of the
  sync gate is never such a no-op provided the oracle itself, once synced, stays synced.
\<close>

theorem readiness_is_the_oracle_answer:
  "(reconcile e s = tick s) = (\<not> K8sCacheIsSynced e (clock s)) \<and>
   ((\<forall>m n. m \<le> n \<longrightarrow> K8sCacheIsSynced e m \<longrightarrow> K8sCacheIsSynced e n) \<longrightarrow>
    waitForK8sSync e s0 = Some s1 \<longrightarrow> clock s1 \<le> clock s \<longrightarrow>
    reconcile e s \<noteq> tick s)"
proof -
  have "reconcile e s \<noteq> tick s"
    if mono: "\<forall>m n. m \<le> n \<longrightarrow> K8sCacheIsSynced e m \<longrightarrow> K8sCacheIsSynced e n"
      and gate: "waitForK8sSync e s0 = Some s1" and later: "clock s1 \<le> clock s"
  proof -
    from waitForK8sSync_Some [OF gate] obtain n
      where n: "K8sCacheIsSynced e n" "s1 = s0\<lparr>clock := Suc n\<rparr>" by auto
    then have "n \<le> clock s" using later by simp
    with mono n(1) have "K8sCacheIsSynced e (clock s)" by blast
    then show ?thesis by (simp add: reconcile_noop_iff)
  qed
  then show ?thesis by (simp add: reconcile_noop_iff)
qed

theorem readiness_is_the_oracle_answer_witness:
  "waitForK8sSync envReady stateStale = Some (tick stateStale) \<and>
   clock (tick stateStale) \<le> clock (tick stateStale) \<and>
   reconcile envReady (tick stateStale) \<noteq> tick (tick stateStale)"
proof -
  have mono: "\<forall>m n. m \<le> n \<longrightarrow> K8sCacheIsSynced envReady m \<longrightarrow> K8sCacheIsSynced envReady n"
    by (simp add: envReady_def)
  have gate: "waitForK8sSync envReady stateStale = Some (tick stateStale)"
    by (subst waitForK8sSync.simps) (simp add: envReady_def)
  show ?thesis
    using mono gate
      readiness_is_the_oracle_answer [of envReady "tick stateStale" stateStale "tick stateStale"]
    by (simp add: envReady_def)
qed

text \<open>
  C5, as the spec states it, fails. The oracle of \<open>envFlip\<close> answers synced to the first
  question only. The goroutine of the sync gate observes that answer and leaves its loop;
  the \<open>reconcile\<close> it then calls asks again, is told not synced, and returns without a
  single adapter call, the stale entry still in the table.
\<close>

theorem readiness_latch_counterexample:
  "K8sCacheIsSynced envFlip (clock stateStale) \<and>
   waitForK8sSync envFlip stateStale = Some (tick stateStale) \<and>
   reconcile envFlip (tick stateStale) = tick (tick stateStale) \<and>
   runReconciliationAfterK8sSync envFlip stateStale = Some (tick (tick stateStale)) \<and>
   calls (tick (tick stateStale)) = [] \<and>
   table (tick (tick stateStale)) = [NewWorldCIDRKey4 net10_1] \<and>
   desiredUnion (tick (tick stateStale)) = {}"
proof -
  have c: "clock stateStale = 0" by (simp add: stateStale_def NewWorldCIDRsManager_def)
  have g: "waitForK8sSync envFlip stateStale = Some (tick stateStale)"
    by (subst waitForK8sSync.simps) (simp add: envFlip_def envReady_def c)
  have r: "reconcile envFlip (tick stateStale) = tick (tick stateStale)"
    by (simp add: reconcile_noop_iff envFlip_def c)
  show ?thesis
    using g r
    by (simp add: runReconciliationAfterK8sSync_def c envFlip_def desiredUnion_def
          stateStale_def NewWorldCIDRsManager_def DAList.empty.rep_eq)
qed

text \<open>
  C6. Update overwrite. When the store has an entry under the identity of \<open>cidrSet\<close>,
  \<open>OnAddWorldCIDRSet\<close> replaces it: afterwards the store maps that identity to
  \<open>cidrSet\<close> itself (so its prefixes under that identity are the new ones and no others),
  every other identity is mapped as before, and the desired union is made of the new set's
  prefixes and those of the other sets. A reconciliation that then runs on this store with
  no failed call, the handler's own or a later one, leaves in the table exactly those
  prefixes: a prefix of the old set stays only if the new set or another set lists it.
\<close>

theorem OnAdd_replaces_wholesale:
  assumes "DAList.lookup (cidrSets s) (id' cidrSet) = Some old"
  shows "DAList.lookup (cidrSets (OnAddWorldCIDRSet e cidrSet s)) (id' cidrSet) = Some cidrSet \<and>
         (\<forall>j. j \<noteq> id' cidrSet \<longrightarrow>
            DAList.lookup (cidrSets (OnAddWorldCIDRSet e cidrSet s)) j = DAList.lookup (cidrSets s) j) \<and>
         desiredUnion (OnAddWorldCIDRSet e cidrSet s) =
           NewWorldCIDRKey4 ` set (cidrs cidrSet) \<union>
           desiredUnion (s\<lparr>cidrSets := DAList.delete (id' cidrSet) (cidrSets s)\<rparr>) \<and>
         (K8sCacheIsSynced e (clock s) \<longrightarrow> allSucceeded s (OnAddWorldCIDRSet e cidrSet s) \<longrightarrow>
            tablePrefixes (OnAddWorldCIDRSet e cidrSet s) =
              NewWorldCIDRKey4 ` set (cidrs cidrSet) \<union>
              desiredUnion (s\<lparr>cidrSets := DAList.delete (id' cidrSet) (cidrSets s)\<rparr>)) \<and>
         (\<forall>e2 s2. cidrSets s2 = cidrSets (OnAddWorldCIDRSet e cidrSet s) \<longrightarrow>
            K8sCacheIsSynced e2 (clock s2) \<longrightarrow> allSucceeded s2 (reconcile e2 s2) \<longrightarrow>
            tablePrefixes (reconcile e2 s2) =
              NewWorldCIDRKey4 ` set (cidrs cidrSet) \<union>
              desiredUnion (s\<lparr>cidrSets := DAList.delete (id' cidrSet) (cidrSets s)\<rparr>))"
proof -
  let ?s' = "OnAddWorldCIDRSet e cidrSet s"
  let ?D = "NewWorldCIDRKey4 ` set (cidrs cidrSet) \<union>
            desiredUnion (s\<lparr>cidrSets := DAList.delete (id' cidrSet) (cidrSets s)\<rparr>)"
  have d: "desiredUnion s2 = ?D" if "cidrSets s2 = cidrSets ?s'" for s2
    using that by (intro desiredUnion_update) simp
  have later: "tablePrefixes (reconcile e2 s2) = ?D"
    if "cidrSets s2 = cidrSets ?s'" "K8sCacheIsSynced e2 (clock s2)"
      "allSucceeded s2 (reconcile e2 s2)" for e2 s2
  proof -
    have "desiredUnion s2 \<subseteq> set (table (reconcile e2 s2))"
      and "\<forall>k \<in> set (table (reconcile e2 s2)). normKey k \<in> desiredUnion s2"
      using reconcile_converges [OF that(2,3)] by simp_all
    then have "tablePrefixes (reconcile e2 s2) = desiredUnion s2"
      using desiredUnion_norm [of _ s2] by (force simp: tablePrefixes_def)
    then show ?thesis using d [OF that(1)] by simp
  qed
  have own: "tablePrefixes ?s' = ?D"
    if ready: "K8sCacheIsSynced e (clock s)" and ok: "allSucceeded s ?s'"
  proof -
    define s2 where "s2 = (logWith InfoLevel [CiliumWorldCIDRSetName (Name (id' cidrSet))]
        ''Updated CiliumWorldCIDRSet'' s)\<lparr>cidrSets := DAList.update (id' cidrSet) cidrSet (cidrSets s)\<rparr>"
    have r: "?s' = reconcile e s2"
      using assms by (simp add: OnAddWorldCIDRSet_def s2_def Let_def)
    have "allSucceeded s2 (reconcile e s2)"
      using ok by (simp add: r allSucceeded_def issued_def s2_def)
    moreover have "K8sCacheIsSynced e (clock s2)" using ready by (simp add: s2_def)
    moreover have "cidrSets s2 = cidrSets ?s'" by (simp add: s2_def)
    ultimately show ?thesis using later [of s2 e] by (simp add: r)
  qed
  show ?thesis using d [of ?s'] later own by simp
qed

theorem OnAdd_replaces_wholesale_witness:
  "DAList.lookup (cidrSets stateAC) (id' setA3) = Some setA \<and>
   K8sCacheIsSynced envReady (clock stateAC) \<and>
   allSucceeded stateAC (OnAddWorldCIDRSet envReady setA3 stateAC) \<and>
   DAList.lookup (cidrSets (OnAddWorldCIDRSet envReady setA3 stateAC)) (id' setA3) = Some setA3 \<and>
   tablePrefixes (OnAddWorldCIDRSet envReady setA3 stateAC) =
     NewWorldCIDRKey4 ` set (cidrs setA3) \<union>
     desiredUnion (stateAC\<lparr>cidrSets := DAList.delete (id' setA3) (cidrSets stateAC)\<rparr>)"
proof -
  have h1: "DAList.lookup (cidrSets stateAC) (id' setA3) = Some setA" by code_simp
  have h2: "K8sCacheIsSynced envReady (clock stateAC)" by (simp add: envReady_def)
  have h3: "allSucceeded stateAC (OnAddWorldCIDRSet envReady setA3 stateAC)" by code_simp
  show ?thesis
    using h1 h2 h3 OnAdd_replaces_wholesale [OF h1, of envReady] by simp
qed

text \<open>
  C7. Exact matching in phase 2. \<open>removeUnusedCIDRs\<close> issues a \<open>Delete\<close> for an entry
  of the table if and only if the normalized prefix of the entry is none of the
  normalized prefixes of the store, and it issues no other \<open>Delete\<close>. Equality decides,
  not overlap: the witness is an entry, 10.1.0.0/16, that lies inside the desired
  10.0.0.0/8 and is deleted.
\<close>

theorem removeUnused_deletes_exactly_unmatched:
  "(k \<in> set (table s) \<longrightarrow>
      (Delete (GetCIDR k) \<in> fst ` set (issued s (removeUnusedCIDRs e s))) =
      (normKey k \<notin> desiredUnion s)) \<and>
   (\<forall>cidr. Delete cidr \<in> fst ` set (issued s (removeUnusedCIDRs e s)) \<longrightarrow>
      (\<exists>k' \<in> set (table s). cidr = GetCIDR k'))"
proof -
  have "fst ` set (issued s (removeUnusedCIDRs e s)) =
          set (map fst (issued s (removeUnusedCIDRs e s)))" by simp
  also have "\<dots> = insert Iterate
      ((\<lambda>k. Delete (GetCIDR k)) ` {k \<in> set (table s). normKey k \<notin> desiredUnion s})"
    unfolding removeUnused_calls by (auto simp: matchesAny_iff)
  finally show ?thesis by auto
qed

theorem removeUnused_deletes_exactly_unmatched_witness:
  "NewWorldCIDRKey4 net10_1 \<in> set (table stateAB) \<and>
   coveredBy (NewWorldCIDRKey4 net10_1) net10 \<and>
   NewWorldCIDRKey4 net10 \<in> desiredUnion stateAB \<and>
   normKey (NewWorldCIDRKey4 net10_1) \<notin> desiredUnion stateAB \<and>
   Delete (GetCIDR (NewWorldCIDRKey4 net10_1)) \<in>
     fst ` set (issued stateAB (removeUnusedCIDRs envReady stateAB))"
proof -
  have h1: "NewWorldCIDRKey4 net10_1 \<in> set (table stateAB)"
    by (simp add: stateAB_def NewWorldCIDRsManager_def)
  have h2: "coveredBy (NewWorldCIDRKey4 net10_1) net10" by code_simp
  have h3: "NewWorldCIDRKey4 net10 \<in> desiredUnion stateAB" by code_simp
  have h4: "normKey (NewWorldCIDRKey4 net10_1) \<notin> desiredUnion stateAB" by code_simp
  show ?thesis
    using h1 h2 h3 h4 removeUnused_deletes_exactly_unmatched [of "NewWorldCIDRKey4 net10_1" stateAB envReady]
    by simp
qed

text \<open>
  C8, as the code has it. Failure isolation, listing by listing. In a pass that runs (the
  oracle answers synced), whatever calls fail: the calls are an \<open>Iterate\<close>, then
  \<open>Add\<close> calls, then a second \<open>Iterate\<close>, then \<open>Delete\<close> calls; the \<open>Add\<close> calls
  are, up to their order, one for each listing by a set of the store of a prefix whose key
  the table lacked when the pass began, so the failure of one keeps none of the others
  from being issued; under any other pattern of failures the same \<open>Add\<close> calls are
  issued in the same order, so a failure brings no further call; the \<open>Delete\<close> calls are
  one for each entry, of the table as phase 1 left it, that matches no desired prefix; and
  each \<open>Add\<close> and \<open>Delete\<close> leaves exactly one log record, an error record when it
  failed. The handlers return nothing but the state: no error reaches their caller.
\<close>

theorem reconcile_failure_isolation:
  assumes "K8sCacheIsSynced e (clock s)"
  shows "(\<exists>adds dels.
            map fst (issued s (reconcile e s)) =
              Iterate # map Add adds @ Iterate # map Delete dels \<and>
            mset adds =
              mset (filter (\<lambda>c. NewWorldCIDRKey4 c \<notin> set (table s)) (listedCIDRs s)) \<and>
            mset dels =
              mset (map GetCIDR (filter (\<lambda>k. normKey k \<notin> desiredUnion s)
                      (remdups (table (addMissingCIDRs e (tick s))))))) \<and>
         map fst (filter isAdd (issued s (reconcile (e\<lparr>ioFails := f\<rparr>) s))) =
           map fst (filter isAdd (issued s (reconcile e s))) \<and>
         logged s (reconcile e s) = concat (map logOfCall (issued s (reconcile e s)))"
proof -
  have "K8sCacheIsSynced (e\<lparr>ioFails := f\<rparr>) (clock s)" using assms by simp
  from reconcile_add_calls [OF this] reconcile_add_calls [OF assms]
  have same: "map fst (filter isAdd (issued s (reconcile (e\<lparr>ioFails := f\<rparr>) s))) =
          map fst (filter isAdd (issued s (reconcile e s)))" by simp
  have log: "logged s (reconcile e s) = concat (map logOfCall (issued s (reconcile e s)))"
    by (rule tracked_logged [OF reconcile_tracked])
  from reconcile_calls_listed [OF assms] same log show ?thesis by (intro conjI)
qed

theorem reconcile_failure_isolation_witness:
  "K8sCacheIsSynced envFail3 (clock stateAC) \<and>
   issued stateAC (reconcile envFail3 stateAC) =
     [(Iterate, None), (Add net10, None), (Add net172, Some ErrIO), (Add net192, None),
      (Iterate, None), (Delete net10_1, None)] \<and>
   filter (\<lambda>c. NewWorldCIDRKey4 c \<notin> set (table stateAC)) (listedCIDRs stateAC) =
     [net10, net172, net192] \<and>
   map fst (filter isAdd (issued stateAC (reconcile (envFail3\<lparr>ioFails := ioFails envReady\<rparr>) stateAC))) =
     map fst (filter isAdd (issued stateAC (reconcile envFail3 stateAC))) \<and>
   map level (logged stateAC (reconcile envFail3 stateAC)) =
     [InfoLevel, ErrorLevel, InfoLevel, InfoLevel]"
proof -
  have h: "K8sCacheIsSynced envFail3 (clock stateAC)" by (simp add: envFail3_def envReady_def)
  have i: "issued stateAC (reconcile envFail3 stateAC) =
     [(Iterate, None), (Add net10, None), (Add net172, Some ErrIO), (Add net192, None),
      (Iterate, None), (Delete net10_1, None)]" by code_simp
  have l: "filter (\<lambda>c. NewWorldCIDRKey4 c \<notin> set (table stateAC)) (listedCIDRs stateAC) =
     [net10, net172, net192]" by code_simp
  note t = reconcile_failure_isolation [OF h, of "ioFails envReady"]
  from t have t2: "map fst (filter isAdd (issued stateAC (reconcile (envFail3\<lparr>ioFails := ioFails envReady\<rparr>) stateAC))) =
     map fst (filter isAdd (issued stateAC (reconcile envFail3 stateAC)))" by (elim conjE)
  from t have t3: "logged stateAC (reconcile envFail3 stateAC) =
     concat (map logOfCall (issued stateAC (reconcile envFail3 stateAC)))" by (elim conjE)
  have lv: "map level (logged stateAC (reconcile envFail3 stateAC)) =
     [InfoLevel, ErrorLevel, InfoLevel, InfoLevel]" by (simp add: t3 i)
  from h i l t2 lv show ?thesis by (intro conjI)
qed

text \<open>
  C8, as the spec states it, fails. In \<open>stateAB\<close> the sets a and b both list 10.0.0.0/8,
  which the table lacks, as it lacks 192.168.0.0/16: two desired-but-missing prefixes.
  Under \<open>envFail2\<close> the \<open>Add\<close> of 10.0.0.0/8 for set a fails; the snapshot, taken once
  before the loops, still lacks the key when the loops reach the listing of set b, and
  the same pass issues \<open>Add\<close> for 10.0.0.0/8 a second time, which succeeds.
\<close>

theorem failed_prefix_added_again_counterexample:
  "K8sCacheIsSynced envFail2 (clock stateAB) \<and>
   issued stateAB (reconcile envFail2 stateAB) =
     [(Iterate, None), (Add net10, Some ErrIO), (Add net10, None), (Add net192, None),
      (Iterate, None), (Delete net10_1, None)] \<and>
   table (reconcile envFail2 stateAB) = [NewWorldCIDRKey4 net10, NewWorldCIDRKey4 net192]"
  by code_simp

text \<open>
  C9. Deleting an unknown identity. When the store has no entry under \<open>i\<close>,
  \<open>OnDeleteWorldCIDRSet\<close> writes one warning to the log and does nothing else: the
  store, the table and the list of adapter calls are as before.
\<close>

theorem OnDelete_unknown_noop:
  assumes "DAList.lookup (cidrSets s) i = None"
  shows "OnDeleteWorldCIDRSet e i s =
           s\<lparr>logs := logs s @ [\<lparr>level = WarnLevel,
                                  logFields = [CiliumWorldCIDRSetName (Name i)],
                                  message = ''Can't delete CiliumWorldCIDRSet: set not found''\<rparr>]\<rparr> \<and>
         cidrSets (OnDeleteWorldCIDRSet e i s) = cidrSets s \<and>
         table (OnDeleteWorldCIDRSet e i s) = table s \<and>
         calls (OnDeleteWorldCIDRSet e i s) = calls s"
  using assms by (simp add: OnDeleteWorldCIDRSet_def logWith_def)

theorem OnDelete_unknown_noop_witness:
  "DAList.lookup (cidrSets stateStale) idA = None \<and>
   cidrSets (OnDeleteWorldCIDRSet envReady idA stateStale) = cidrSets stateStale \<and>
   table (OnDeleteWorldCIDRSet envReady idA stateStale) = table stateStale \<and>
   calls (OnDeleteWorldCIDRSet envReady idA stateStale) = calls stateStale \<and>
   map level (logged stateStale (OnDeleteWorldCIDRSet envReady idA stateStale)) = [WarnLevel]"
proof -
  have h: "DAList.lookup (cidrSets stateStale) idA = None"
    by (simp add: stateStale_def NewWorldCIDRsManager_def)
  show ?thesis using h OnDelete_unknown_noop [OF h, of envReady]
    by (simp add: logged_def)
qed

text \<open>
  C10. The store is outside the frame of a pass. \<open>reconcile\<close>, \<open>addMissingCIDRs\<close> and
  \<open>removeUnusedCIDRs\<close> leave \<open>cidrSets\<close> as it was, in every state and whatever the
  adapter answers; so does the goroutine of the sync gate when it returns. The store
  after \<open>OnAddWorldCIDRSet\<close> and \<open>OnDeleteWorldCIDRSet\<close> is the one that the
  assignment and the \<open>delete\<close> of the handler produce: they alone write it.
\<close>

theorem reconcile_store_unchanged:
  "cidrSets (reconcile e s) = cidrSets s \<and>
   cidrSets (addMissingCIDRs e s) = cidrSets s \<and>
   cidrSets (removeUnusedCIDRs e s) = cidrSets s \<and>
   (\<forall>s'. runReconciliationAfterK8sSync e s = Some s' \<longrightarrow> cidrSets s' = cidrSets s) \<and>
   cidrSets (OnAddWorldCIDRSet e cidrSet s) = DAList.update (id' cidrSet) cidrSet (cidrSets s) \<and>
   cidrSets (OnDeleteWorldCIDRSet e i s) = DAList.delete i (cidrSets s)"
proof -
  have phase1: "cidrSets (addMissingCIDRs e s) = cidrSets s"
    unfolding addMissing_unfold by (simp add: addLoop_cidrSets)
  have phase2: "cidrSets (removeUnusedCIDRs e s) = cidrSets s"
    unfolding removeUnused_unfold by (simp add: removeLoop_cidrSets)
  have pass: "cidrSets (reconcile e s) = cidrSets s"
    by (cases "K8sCacheIsSynced e (clock s)") (simp_all add: reconcile_ready reconcile_notReady)
  have gate: "\<forall>s'. runReconciliationAfterK8sSync e s = Some s' \<longrightarrow> cidrSets s' = cidrSets s"
    using gate_cidrSets by blast
  have add: "cidrSets (OnAddWorldCIDRSet e cidrSet s) =
      DAList.update (id' cidrSet) cidrSet (cidrSets s)" by simp
  have del: "cidrSets (OnDeleteWorldCIDRSet e i s) = DAList.delete i (cidrSets s)" by simp
  from pass phase1 phase2 gate add del show ?thesis by (intro conjI)
qed

theorem reconcile_store_unchanged_witness:
  "cidrSets (reconcile envFail3 stateAB) = cidrSets stateAB \<and>
   cidrSets (addMissingCIDRs envFail3 stateAB) = cidrSets stateAB \<and>
   cidrSets (removeUnusedCIDRs envFail3 stateAB) = cidrSets stateAB \<and>
   runReconciliationAfterK8sSync envFail3 stateAB = Some (reconcile envFail3 (tick stateAB)) \<and>
   cidrSets (reconcile envFail3 (tick stateAB)) = cidrSets stateAB"
proof -
  have w: "waitForK8sSync envFail3 stateAB = Some (tick stateAB)"
    by (subst waitForK8sSync.simps) (simp add: envFail3_def envReady_def)
  have g: "runReconciliationAfterK8sSync envFail3 stateAB = Some (reconcile envFail3 (tick stateAB))"
    by (simp add: runReconciliationAfterK8sSync_def w)
  note t = reconcile_store_unchanged [of envFail3 stateAB]
  from t g show ?thesis by blast
qed

end
